theory Spec2Isabelle
  imports Complex_Main "HOL-Library.Char_ord" "HOL-Library.List_Lexorder"
begin

section \<open>Conventions of the embedding\<close>

text \<open>
  The development embeds two classes of the repository: the spectral-flux part of
  \<open>AudioProcessor\<close> (src/js/exporter.js) and the whole of \<open>SpeakerDiarization\<close>
  (src/unnamed/part_000).

  \<^item> A JavaScript number is a \<open>real\<close>; rounding, overflow and the infinities of IEEE
    arithmetic are not modelled. Integer-valued numbers (cluster ids, counts, the number
    of speakers) are \<open>int\<close> or \<open>nat\<close>.
  \<^item> \<open>NaN\<close> is modelled where the code can produce it from well-typed real input: a read
    beyond the end of an array yields \<open>undefined\<close>, which arithmetic turns into \<open>NaN\<close>.
    Such values have type \<open>jsnum\<close>.
  \<^item> Arrays are lists of unbounded length; the array-length limit of the language is not
    modelled, so every non-negative integer is an array index.
  \<^item> An exception is a value \<open>Inl err\<close> of a sum type.
  \<^item> The callback slots of the engine are observers: the model records whether a slot is
    set and appends each call to a trace of events. A callback neither throws nor changes
    the engine.
  \<^item> \<open>Math.random()\<close> is a parameter \<open>rnd\<close>: \<open>rnd j\<close> is the value of the \<open>j\<close>-th call made
    by one clustering run.
\<close>

datatype js_error = Busy | RangeError | TypeError

datatype jsnum = NaN | Num real

section \<open>The feature extractor: spectral flux\<close>

text \<open>
  The two fields of \<open>AudioProcessor\<close> that the flux computation and the feature series
  use. \<open>prevFreqData\<close> is not set by the constructor: it is \<open>undefined\<close> (\<open>None\<close>) until
  the first call of \<open>calculateSpectralFlux\<close>. The type of a recorded frame is left open.
\<close>

record 'f audio_processor =
  prevFreqData :: "real list option"
  audioFeatures :: "'f list"

definition AudioProcessor_new :: "'f audio_processor" where
  "AudioProcessor_new = \<lparr>prevFreqData = None, audioFeatures = []\<rparr>"

text \<open>Decibels to linear magnitude: \<open>Math.pow(10, db / 20)\<close>.\<close>

definition magnitude :: "real \<Rightarrow> real" where
  "magnitude db = 10 powr (db / 20)"

text \<open>
  \<open>calculateSpectralFlux\<close>. With no previous spectrum the method stores a zero-filled
  array of the length of \<open>freqData\<close> and returns 0. Otherwise it sums the squared
  differences of the magnitudes and copies \<open>freqData\<close> over the start of the stored
  array; \<open>set\<close> throws a RangeError when \<open>freqData\<close> is the longer one.
\<close>

definition calculateSpectralFlux ::
  "real list \<Rightarrow> 'f audio_processor \<Rightarrow> js_error + real \<times> 'f audio_processor" where
  "calculateSpectralFlux freqData p =
     (case prevFreqData p of
        None \<Rightarrow> Inr (0, p\<lparr>prevFreqData := Some (replicate (length freqData) 0)\<rparr>)
      | Some prev \<Rightarrow>
          if length prev < length freqData then Inl RangeError
          else
            let sum = foldl (\<lambda>sum i.
                         let diff = magnitude (freqData ! i) - magnitude (prev ! i)
                         in sum + diff * diff) 0 [0..<length freqData]
            in Inr (sqrt sum,
                    p\<lparr>prevFreqData := Some (freqData @ drop (length freqData) prev)\<rparr>))"

definition getAudioFeatures :: "'f audio_processor \<Rightarrow> 'f list" where
  "getAudioFeatures p = audioFeatures p"

definition resetAudioFeatures :: "'f audio_processor \<Rightarrow> 'f audio_processor" where
  "resetAudioFeatures p = p\<lparr>audioFeatures := []\<rparr>"

section \<open>The diarization engine: data\<close>

record band_energies =
  lowBand :: real
  midBand :: real
  highBand :: real

record audio_features =
  spectralCentroid :: real
  rms :: real
  spectralFlux :: real
  zeroCrossingRate :: real
  bandEnergies :: band_energies

record audio_frame =
  frame_time :: real
  features :: audio_features

record feature_vector =
  time :: real
  vector :: "real list"

record labeled_vector = feature_vector +
  cluster :: int

record chunk =
  chunk_text :: string
  timestamp :: "real \<times> real"

record transcription =
  tr_text :: string
  chunks :: "chunk list"

record segment =
  seg_text :: string
  seg_start :: real
  seg_end :: real
  speaker :: string

record result =
  res_text :: string
  segments :: "segment list"
  speakers :: "string list"

record kmeans_result =
  centroids :: "jsnum list list"
  assignments :: "int list"

text \<open>
  The five phase messages passed to \<open>updateProgress\<close>, in the order of the calls; the
  source has a Japanese string literal for each.
\<close>

datatype message = MsgExtracting | MsgClustering | MsgAssigning | MsgOptimizing | MsgDone

text \<open>One constructor for each callback slot; a trace is a list of the calls made.\<close>

datatype event =
    ProcessingStart
  | ProcessingProgress real message
  | ProcessingComplete result
  | ProcessingError js_error

record engine =
  maxSpeakers :: int
  minSegmentDuration :: real
  mergeThreshold :: real
  isProcessing :: bool
  onProcessingStart :: bool
  onProcessingProgress :: bool
  onProcessingComplete :: bool
  onError :: bool

text \<open>The constructor: three speakers, no callback set, no run in flight.\<close>

definition SpeakerDiarization_new :: engine where
  "SpeakerDiarization_new =
     \<lparr>maxSpeakers = 3, minSegmentDuration = 1, mergeThreshold = 1 / 2,
      isProcessing = False, onProcessingStart = False, onProcessingProgress = False,
      onProcessingComplete = False, onError = False\<rparr>"

definition setMaxSpeakers :: "engine \<Rightarrow> int \<Rightarrow> engine" where
  "setMaxSpeakers e count = e\<lparr>maxSpeakers := max 1 (min 10 count)\<rparr>"

definition isCurrentlyProcessing :: "engine \<Rightarrow> bool" where
  "isCurrentlyProcessing e = isProcessing e"

text \<open>\<open>updateProgress\<close> calls the progress callback only when the slot is set.\<close>

definition updateProgress :: "engine \<Rightarrow> real \<Rightarrow> message \<Rightarrow> event list \<Rightarrow> event list" where
  "updateProgress e progress msg trace =
     (if onProcessingProgress e
      then trace @ [ProcessingProgress (min 1 (max 0 progress)) msg]
      else trace)"

section \<open>Feature vectors\<close>

definition extractFeatureVectors :: "audio_frame list \<Rightarrow> feature_vector list" where
  "extractFeatureVectors audioFeatures' =
     map (\<lambda>frame.
            \<lparr>time = frame_time frame,
             vector =
               [spectralCentroid (features frame),
                rms (features frame) * 100,
                spectralFlux (features frame) * 10,
                zeroCrossingRate (features frame) * 1000,
                lowBand (bandEnergies (features frame)) * 10,
                midBand (bandEnergies (features frame)) * 10,
                highBand (bandEnergies (features frame)) * 10]\<rparr>)
         audioFeatures'"

section \<open>Arithmetic with undefined reads\<close>

text \<open>\<open>xs[i]\<close>: \<open>None\<close> is \<open>undefined\<close>, the value of a read beyond the end.\<close>

definition js_nth :: "'a list \<Rightarrow> nat \<Rightarrow> 'a option" where
  "js_nth xs i = (if i < length xs then Some (xs ! i) else None)"

fun js_add :: "jsnum \<Rightarrow> jsnum \<Rightarrow> jsnum" where
  "js_add (Num a) (Num b) = Num (a + b)"
| "js_add _ _ = NaN"

fun js_sub :: "jsnum \<Rightarrow> jsnum \<Rightarrow> jsnum" where
  "js_sub (Num a) (Num b) = Num (a - b)"
| "js_sub _ _ = NaN"

fun js_square :: "jsnum \<Rightarrow> jsnum" where
  "js_square (Num a) = Num (a ^ 2)"
| "js_square NaN = NaN"

fun js_sqrt :: "jsnum \<Rightarrow> jsnum" where
  "js_sqrt (Num a) = Num (sqrt a)"
| "js_sqrt NaN = NaN"

text \<open>Division by a positive count.\<close>

fun js_div :: "jsnum \<Rightarrow> nat \<Rightarrow> jsnum" where
  "js_div (Num a) n = Num (a / real n)"
| "js_div NaN n = NaN"

text \<open>
  \<open>euclideanDistance\<close>: \<open>reduce\<close> runs over the indices of \<open>vec1\<close>; where \<open>vec2\<close> is
  shorter, \<open>vec2[i]\<close> is \<open>undefined\<close> and the sum becomes \<open>NaN\<close>. The sum of squares is
  never negative, so the square root is that of the reals.
\<close>

definition euclideanDistance :: "real list \<Rightarrow> jsnum list \<Rightarrow> jsnum" where
  "euclideanDistance vec1 vec2 =
     js_sqrt (foldl (\<lambda>sum i.
                js_add sum (js_square (js_sub (Num (vec1 ! i))
                  (case js_nth vec2 i of None \<Rightarrow> NaN | Some c \<Rightarrow> c))))
              (Num 0) [0..<length vec1])"

section \<open>k-means clustering\<close>

text \<open>
  The inner loop of step 1: the index of the first centroid at the least distance.
  \<open>minDistance\<close> starts at \<open>Infinity\<close>, here \<open>None\<close>; every number is below it, and
  \<open>NaN\<close> is below nothing. \<open>centroids\<close> has \<open>k\<close> rows throughout the run.
\<close>

definition closestCentroid :: "real list \<Rightarrow> jsnum list list \<Rightarrow> nat \<Rightarrow> nat" where
  "closestCentroid vec centroids' k =
     snd (foldl (\<lambda>(minDistance, closest) j.
                   case euclideanDistance vec (centroids' ! j) of
                     NaN \<Rightarrow> (minDistance, closest)
                   | Num distance \<Rightarrow>
                       if (case minDistance of None \<Rightarrow> True | Some m \<Rightarrow> distance < m)
                       then (Some distance, j)
                       else (minDistance, closest))
                (None, 0) [0..<k])"

text \<open>Step 1 for the vector at index \<open>i\<close>.\<close>

definition assign_step ::
  "real list list \<Rightarrow> jsnum list list \<Rightarrow> nat \<Rightarrow> int list \<times> bool \<Rightarrow> nat \<Rightarrow> int list \<times> bool" where
  "assign_step vectors centroids' k st i =
     (case st of (assignments', changed) \<Rightarrow>
        let closest = int (closestCentroid (vectors ! i) centroids' k) in
        if assignments' ! i \<noteq> closest then (assignments'[i := closest], True)
        else (assignments', changed))"

text \<open>
  \<open>newCentroids[cluster][j] += vectors[i][j]\<close> for every \<open>j\<close> below the length of the
  vector: beyond the end of the row the read is \<open>undefined\<close>, the sum \<open>NaN\<close>, and the
  assignment extends the row.
\<close>

fun add_into :: "jsnum list \<Rightarrow> real list \<Rightarrow> jsnum list" where
  "add_into row [] = row"
| "add_into [] (x # xs) = NaN # add_into [] xs"
| "add_into (r # row) (x # xs) = js_add r (Num x) # add_into row xs"

text \<open>
  Step 2 for the vector at index \<open>i\<close>. When \<open>cluster\<close> is no index of \<open>newCentroids\<close>
  (which needs \<open>k = 0\<close>), \<open>newCentroids[cluster]\<close> is \<open>undefined\<close> and the first read of
  \<open>newCentroids[cluster][j]\<close> throws a TypeError; for an empty vector there is no such
  read, and \<open>counts[cluster]++\<close> adds an entry that is never read.
\<close>

definition accumulate_step ::
  "real list list \<Rightarrow> int list \<Rightarrow> js_error + jsnum list list \<times> nat list \<Rightarrow> nat
     \<Rightarrow> js_error + jsnum list list \<times> nat list" where
  "accumulate_step vectors assignments' st i =
     (case st of
        Inl err \<Rightarrow> Inl err
      | Inr (newCentroids, counts) \<Rightarrow>
          let cluster' = assignments' ! i in
          if 0 \<le> cluster' \<and> nat cluster' < length newCentroids
          then Inr (newCentroids[nat cluster' :=
                      add_into (newCentroids ! nat cluster') (vectors ! i)],
                    counts[nat cluster' := counts ! nat cluster' + 1])
          else if vectors ! i = [] then Inr (newCentroids, counts)
          else Inl TypeError)"

text \<open>The last loop of a round: a cluster with a vector gets the mean as its centroid.\<close>

definition recompute ::
  "jsnum list list \<Rightarrow> jsnum list list \<Rightarrow> nat list \<Rightarrow> nat \<Rightarrow> jsnum list list" where
  "recompute centroids' newCentroids counts k =
     foldl (\<lambda>cs i.
              if counts ! i > 0
              then cs[i := map (\<lambda>x. js_div x (counts ! i)) (newCentroids ! i)]
              else cs)
           centroids' [0..<k]"

text \<open>
  The \<open>while\<close> loop. The arguments after \<open>maxIterations\<close> are the variables of the loop;
  the function returns them as they are when the loop is left.
\<close>

function kMeans_loop ::
  "real list list \<Rightarrow> nat \<Rightarrow> nat \<Rightarrow> jsnum list list \<Rightarrow> int list \<Rightarrow> nat \<Rightarrow> bool
     \<Rightarrow> js_error + jsnum list list \<times> int list \<times> nat \<times> bool" where
  "kMeans_loop vectors k maxIterations centroids' assignments' iterations changed =
     (if changed \<and> iterations < maxIterations then
        (case foldl (assign_step vectors centroids' k) (assignments', False)
                [0..<length vectors] of
           (assignments'', changed') \<Rightarrow>
             (case foldl (accumulate_step vectors assignments'')
                     (Inr (replicate k (replicate (length (vectors ! 0)) (Num 0)),
                           replicate k 0))
                     [0..<length vectors] of
                Inl err \<Rightarrow> Inl err
              | Inr (newCentroids, counts) \<Rightarrow>
                  kMeans_loop vectors k maxIterations
                    (recompute centroids' newCentroids counts k)
                    assignments'' (Suc iterations) changed'))
      else Inr (centroids', assignments', iterations, changed))"
  by pat_completeness auto
termination
  by (relation "measure (\<lambda>(vectors, k, maxIterations, cs, as, iterations, changed).
                           maxIterations - iterations)") auto

declare kMeans_loop.simps [simp del]

text \<open>
  One pass through the body of the loop, steps 1 and 2, on the centroids and the
  assignments alone: the counter and the flag are left out. \<open>kMeans_rounds\<close> runs the body
  the given number of times from a starting state.
\<close>

definition kMeans_round ::
  "real list list \<Rightarrow> nat \<Rightarrow> jsnum list list \<times> int list
     \<Rightarrow> js_error + jsnum list list \<times> int list" where
  "kMeans_round vectors k st =
     (case st of (centroids', assignments') \<Rightarrow>
        (case foldl (assign_step vectors centroids' k) (assignments', False)
                [0..<length vectors] of
           (assignments'', changed') \<Rightarrow>
             (case foldl (accumulate_step vectors assignments'')
                     (Inr (replicate k (replicate (length (vectors ! 0)) (Num 0)),
                           replicate k 0))
                     [0..<length vectors] of
                Inl err \<Rightarrow> Inl err
              | Inr (newCentroids, counts) \<Rightarrow>
                  Inr (recompute centroids' newCentroids counts k, assignments''))))"

fun kMeans_rounds ::
  "real list list \<Rightarrow> nat \<Rightarrow> nat \<Rightarrow> jsnum list list \<times> int list
     \<Rightarrow> js_error + jsnum list list \<times> int list" where
  "kMeans_rounds vectors k 0 st = Inr st"
| "kMeans_rounds vectors k (Suc n) st =
     (case kMeans_rounds vectors k n st of
        Inl err \<Rightarrow> Inl err
      | Inr st' \<Rightarrow> kMeans_round vectors k st')"

text \<open>
  One initial centroid: a copy of the vector at index
  \<open>Math.floor(Math.random() * vectors.length)\<close>. \<open>Math.random()\<close> returns a value in
  \<open>[0, 1)\<close>, which keeps the index in range; for any other value the element is
  \<open>undefined\<close> and spreading it throws a TypeError.
\<close>

definition initial_centroid :: "real list list \<Rightarrow> real \<Rightarrow> js_error + jsnum list" where
  "initial_centroid vectors r =
     (let randomIndex = \<lfloor>r * real (length vectors)\<rfloor> in
      if 0 \<le> randomIndex \<and> randomIndex < int (length vectors)
      then Inr (map Num (vectors ! nat randomIndex))
      else Inl TypeError)"

fun collect :: "('e + 'a) list \<Rightarrow> 'e + 'a list" where
  "collect [] = Inr []"
| "collect (Inl err # xs) = Inl err"
| "collect (Inr x # xs) = (case collect xs of Inl err \<Rightarrow> Inl err | Inr ys \<Rightarrow> Inr (x # ys))"

text \<open>
  \<open>kMeans_run\<close> is the body of \<open>kMeansClustering\<close> for a non-empty \<open>vectors\<close>, up to the
  end of the loop. \<open>Array(k)\<close> throws a RangeError for a negative \<open>k\<close>.
\<close>

definition kMeans_run ::
  "(nat \<Rightarrow> real) \<Rightarrow> real list list \<Rightarrow> int \<Rightarrow> nat
     \<Rightarrow> js_error + jsnum list list \<times> int list \<times> nat \<times> bool" where
  "kMeans_run rnd vectors k maxIterations =
     (if k < 0 then Inl RangeError
      else
        case collect (map (\<lambda>j. initial_centroid vectors (rnd j)) [0..<nat k]) of
          Inl err \<Rightarrow> Inl err
        | Inr centroids' \<Rightarrow>
            kMeans_loop vectors (nat k) maxIterations centroids'
              (replicate (length vectors) (- 1)) 0 True)"

definition kMeansClustering ::
  "(nat \<Rightarrow> real) \<Rightarrow> real list list \<Rightarrow> int \<Rightarrow> nat \<Rightarrow> js_error + kmeans_result" where
  "kMeansClustering rnd vectors k maxIterations =
     (if vectors = [] then Inr \<lparr>centroids = [], assignments = []\<rparr>
      else
        case kMeans_run rnd vectors k maxIterations of
          Inl err \<Rightarrow> Inl err
        | Inr (centroids', assignments', iterations, changed) \<Rightarrow>
            Inr \<lparr>centroids = centroids', assignments = assignments'\<rparr>)"

section \<open>Labelling the frames\<close>

text \<open>
  \<open>Math.min(...distances)\<close>: \<open>Infinity\<close> (here \<open>None\<close>) for no argument, \<open>NaN\<close> when an
  argument is \<open>NaN\<close>.
\<close>

fun Math_min :: "jsnum list \<Rightarrow> jsnum option" where
  "Math_min [] = None"
| "Math_min (NaN # ds) = Some NaN"
| "Math_min (Num x # ds) =
     (case Math_min ds of
        None \<Rightarrow> Some (Num x)
      | Some NaN \<Rightarrow> Some NaN
      | Some (Num y) \<Rightarrow> Some (Num (min x y)))"

text \<open>
  \<open>distances.indexOf(m)\<close> compares with strict equality: \<open>NaN\<close> equals nothing, and no
  distance of the model is \<open>Infinity\<close>.
\<close>

fun indexOf :: "jsnum list \<Rightarrow> jsnum option \<Rightarrow> int" where
  "indexOf [] m = - 1"
| "indexOf (d # ds) m =
     (if (case (d, m) of (Num x, Some (Num y)) \<Rightarrow> x = y | _ \<Rightarrow> False) then 0
      else let r = indexOf ds m in if r < 0 then - 1 else r + 1)"

text \<open>
  \<open>clusterFeatureVectors\<close>. The executor of the promise runs at once, and an exception
  in it rejects the promise, which the \<open>await\<close> of the caller rethrows. A comparison with
  \<open>undefined\<close> is false, on both tests of the entry at index 1.
\<close>

definition clusterFeatureVectors ::
  "(nat \<Rightarrow> real) \<Rightarrow> feature_vector list \<Rightarrow> int \<Rightarrow> js_error + labeled_vector list" where
  "clusterFeatureVectors rnd featureVectors k =
     (let activeVectors =
            filter (\<lambda>v. case js_nth (vector v) 1 of None \<Rightarrow> False | Some x \<Rightarrow> x > 1 / 10)
              featureVectors
      in
      if length activeVectors = 0 then Inr []
      else
        case kMeansClustering rnd (map vector activeVectors)
               (min k (int (length activeVectors))) 100 of
          Inl err \<Rightarrow> Inl err
        | Inr kMeans \<Rightarrow>
            Inr (map (\<lambda>v.
                   if (case js_nth (vector v) 1 of None \<Rightarrow> False | Some x \<Rightarrow> x \<le> 1 / 10)
                   then \<lparr>time = time v, vector = vector v, cluster = - 1\<rparr>
                   else
                     let distances = map (\<lambda>centroid. euclideanDistance (vector v) centroid)
                                       (centroids kMeans);
                         minIndex = indexOf distances (Math_min distances)
                     in \<lparr>time = time v, vector = vector v, cluster = minIndex\<rparr>)
                 featureVectors))"

section \<open>Labelling the chunks\<close>

text \<open>
  \<open>counts[c] = (counts[c] || 0) + 1\<close> on an object whose keys are cluster ids: the
  association list keeps the keys in the order of their first insertion.
\<close>

definition count_cluster :: "(int \<times> nat) list \<Rightarrow> int \<Rightarrow> (int \<times> nat) list" where
  "count_cluster counts c =
     (case map_of counts c of
        None \<Rightarrow> counts @ [(c, 1)]
      | Some n \<Rightarrow> map (\<lambda>(c', n'). if c' = c then (c', n' + 1) else (c', n')) counts)"

text \<open>
  \<open>Object.entries\<close> lists integer keys in ascending numeric order, whatever the order of
  insertion; the keys here are non-negative integers.
\<close>

definition Object_entries :: "(int \<times> nat) list \<Rightarrow> (int \<times> nat) list" where
  "Object_entries counts = sort_key fst counts"

text \<open>The \<open>reduce\<close> over the frames of a chunk; \<open>acc\<close> is the object built so far.\<close>

definition tally :: "(int \<times> nat) list \<Rightarrow> labeled_vector list \<Rightarrow> (int \<times> nat) list" where
  "tally acc relevantFeatures =
     foldl (\<lambda>counts feature.
              if cluster feature \<ge> 0 then count_cluster counts (cluster feature) else counts)
           acc relevantFeatures"

text \<open>
  The \<open>forEach\<close> over the entries; the state is \<open>dominantCluster\<close> and \<open>maxCount\<close>. The
  key of an entry is the decimal string of a cluster id, which \<open>parseInt\<close> reads back.
\<close>

definition scan :: "int \<times> nat \<Rightarrow> (int \<times> nat) list \<Rightarrow> int \<times> nat" where
  "scan st entries =
     foldl (\<lambda>(dominantCluster, maxCount) (c, count).
              if count > maxCount then (c, count) else (dominantCluster, maxCount))
           st entries"

definition dominant_cluster :: "labeled_vector list \<Rightarrow> int" where
  "dominant_cluster relevantFeatures =
     (let clusterCounts = tally [] relevantFeatures
      in fst (scan (- 1, 0) (Object_entries clusterCounts)))"

text \<open>\<open>String.fromCharCode(65 + dominantCluster % 26)\<close>, or the sentinel.\<close>

definition speaker_label :: "int \<Rightarrow> string" where
  "speaker_label dominantCluster =
     (if dominantCluster \<ge> 0 then [char_of (65 + dominantCluster mod 26)] else ''Unknown'')"

definition assignSpeakersToSegments ::
  "labeled_vector list \<Rightarrow> feature_vector list \<Rightarrow> chunk list \<Rightarrow> segment list" where
  "assignSpeakersToSegments clusteredFeatures featureVectors transcriptionChunks =
     map (\<lambda>chunk'.
            case timestamp chunk' of (startTime, endTime) \<Rightarrow>
              let relevantFeatures =
                    filter (\<lambda>f. time f \<ge> startTime \<and> time f \<le> endTime) clusteredFeatures
              in \<lparr>seg_text = chunk_text chunk', seg_start = startTime, seg_end = endTime,
                  speaker = speaker_label (dominant_cluster relevantFeatures)\<rparr>)
         transcriptionChunks"

section \<open>Segment optimization\<close>

text \<open>
  One iteration of the loop of \<open>optimizeSegments\<close>: \<open>result\<close> is the array of kept
  segments, never empty; its last element is \<open>previousSegment\<close>. A merge assigns to the
  fields of that element; otherwise \<open>currentSegment\<close> is pushed. The segments of the
  input are distinct objects (\<open>assignSpeakersToSegments\<close> creates one per chunk), so the
  assignment changes no segment still to be read.
\<close>

definition merge_step :: "engine \<Rightarrow> segment list \<Rightarrow> segment \<Rightarrow> segment list" where
  "merge_step e result currentSegment =
     (let previousSegment = last result in
      if speaker currentSegment = speaker previousSegment \<and>
         seg_start currentSegment - seg_end previousSegment \<le> mergeThreshold e
      then butlast result @
           [previousSegment\<lparr>seg_end := seg_end currentSegment,
                            seg_text := seg_text previousSegment @ '' '' @ seg_text currentSegment\<rparr>]
      else result @ [currentSegment])"

definition optimizeSegments :: "engine \<Rightarrow> segment list \<Rightarrow> segment list" where
  "optimizeSegments e segments' =
     (if length segments' \<le> 1 then segments'
      else foldl (merge_step e) [segments' ! 0]
             (map (\<lambda>i. segments' ! i) [1..<length segments']))"

text \<open>
  The merge condition and the merged segment, as the specification words them; used to
  state the properties of the pass.
\<close>

definition mergeable :: "engine \<Rightarrow> segment \<Rightarrow> segment \<Rightarrow> bool" where
  "mergeable e kept s \<longleftrightarrow>
     speaker s = speaker kept \<and> seg_start s - seg_end kept \<le> mergeThreshold e"

definition merged :: "segment \<Rightarrow> segment \<Rightarrow> segment" where
  "merged kept s =
     kept\<lparr>seg_end := seg_end s, seg_text := seg_text kept @ '' '' @ seg_text s\<rparr>"

fun stable :: "engine \<Rightarrow> segment list \<Rightarrow> bool" where
  "stable e [] = True"
| "stable e [x] = True"
| "stable e (x # y # zs) = (\<not> mergeable e x y \<and> stable e (y # zs))"

section \<open>The speaker roster and the run\<close>

text \<open>\<open>Set.add\<close>: a set keeps its elements in the order of insertion.\<close>

definition set_add :: "'a list \<Rightarrow> 'a \<Rightarrow> 'a list" where
  "set_add s x = (if x \<in> set s then s else s @ [x])"

text \<open>
  \<open>extractUniqueSpeakers\<close>; \<open>sort()\<close> with no comparator orders strings by their code
  units, which is the lexicographic order of \<open>string\<close>.
\<close>

definition extractUniqueSpeakers :: "segment list \<Rightarrow> string list" where
  "extractUniqueSpeakers segments' =
     sort (foldl (\<lambda>uniqueSpeakers segment'.
                    if speaker segment' \<noteq> ''Unknown''
                    then set_add uniqueSpeakers (speaker segment')
                    else uniqueSpeakers)
                 [] segments')"

text \<open>
  \<open>processDiarization\<close> returns the value or the exception of the call, the engine after
  it, and the callbacks called, in order. The busy check is before the \<open>try\<close>: it throws
  with nothing done. An exception inside the \<open>try\<close> can come only from the clustering;
  the handler clears the flag and calls the error callback.
\<close>

definition processDiarization ::
  "(nat \<Rightarrow> real) \<Rightarrow> engine \<Rightarrow> audio_frame list \<Rightarrow> transcription
     \<Rightarrow> (js_error + result) \<times> engine \<times> event list" where
  "processDiarization rnd e audioFeatures' transcription' =
     (if isProcessing e then (Inl Busy, e, [])
      else
        let e1 = e\<lparr>isProcessing := True\<rparr>;
            t0 = (if onProcessingStart e1 then [ProcessingStart] else []);
            t1 = updateProgress e1 (1 / 10) MsgExtracting t0;
            featureVectors = extractFeatureVectors audioFeatures';
            t2 = updateProgress e1 (3 / 10) MsgClustering t1
        in
        case clusterFeatureVectors rnd featureVectors (maxSpeakers e1) of
          Inl err \<Rightarrow>
            (Inl err, e1\<lparr>isProcessing := False\<rparr>,
             if onError e1 then t2 @ [ProcessingError err] else t2)
        | Inr clusters \<Rightarrow>
            let t3 = updateProgress e1 (6 / 10) MsgAssigning t2;
                labeledSegments =
                  assignSpeakersToSegments clusters featureVectors (chunks transcription');
                t4 = updateProgress e1 (8 / 10) MsgOptimizing t3;
                optimizedSegments = optimizeSegments e1 labeledSegments;
                result' = \<lparr>res_text = tr_text transcription',
                           segments = optimizedSegments,
                           speakers = extractUniqueSpeakers optimizedSegments\<rparr>;
                t5 = updateProgress e1 1 MsgDone t4;
                t6 = (if onProcessingComplete e1 then t5 @ [ProcessingComplete result'] else t5)
            in (Inr result', e1\<lparr>isProcessing := False\<rparr>, t6))"

text \<open>The progress updates of a trace, in order.\<close>

fun progress_updates :: "event list \<Rightarrow> (real \<times> message) list" where
  "progress_updates [] = []"
| "progress_updates (ProcessingProgress p m # t) = (p, m) # progress_updates t"
| "progress_updates (ev # t) = progress_updates t"

text \<open>
  The calls of a run that succeeds, in order: the start callback, the five progress
  updates, the completion callback with the result; each only when its slot is set.
\<close>

definition run_trace :: "engine \<Rightarrow> result \<Rightarrow> event list" where
  "run_trace e r =
     (if onProcessingStart e then [ProcessingStart] else []) @
     (if onProcessingProgress e
      then [ProcessingProgress (1 / 10) MsgExtracting, ProcessingProgress (3 / 10) MsgClustering,
            ProcessingProgress (6 / 10) MsgAssigning, ProcessingProgress (8 / 10) MsgOptimizing,
            ProcessingProgress 1 MsgDone]
      else []) @
     (if onProcessingComplete e then [ProcessingComplete r] else [])"

section \<open>Example inputs\<close>

text \<open>A recorded frame with the given time, spectral centroid and RMS, all else zero.\<close>

definition frame :: "real \<Rightarrow> real \<Rightarrow> real \<Rightarrow> audio_frame" where
  "frame t c r =
     \<lparr>frame_time = t,
      features = \<lparr>spectralCentroid = c, rms = r, spectralFlux = 0, zeroCrossingRate = 0,
                  bandEnergies = \<lparr>lowBand = 0, midBand = 0, highBand = 0\<rparr>\<rparr>\<rparr>"

definition two_speakers :: "audio_frame list" where
  "two_speakers = [frame (1 / 2) 10 (1 / 100), frame (3 / 2) 13 (5 / 100)]"

definition hello_world :: transcription where
  "hello_world = \<lparr>tr_text = ''hello world'',
                  chunks = [\<lparr>chunk_text = ''hello'', timestamp = (0, 1)\<rparr>,
                            \<lparr>chunk_text = ''world'', timestamp = (6 / 5, 2)\<rparr>]\<rparr>"

definition draws :: "nat \<Rightarrow> real" where
  "draws j = (if j = 0 then 0 else 1 / 2)"

text \<open>One frame below the silence threshold: its scaled RMS is 0.05.\<close>

definition silence :: "audio_frame list" where
  "silence = [frame (1 / 2) 10 (5 / 10000)]"

definition listening :: engine where
  "listening = SpeakerDiarization_new\<lparr>onProcessingStart := True, onProcessingProgress := True,
                 onProcessingComplete := True, onError := True\<rparr>"

definition two_speakers_result :: result where
  "two_speakers_result =
     \<lparr>res_text = ''hello world'',
      segments = [\<lparr>seg_text = ''hello'', seg_start = 0, seg_end = 1, speaker = ''A''\<rparr>,
                  \<lparr>seg_text = ''world'', seg_start = 6 / 5, seg_end = 2, speaker = ''B''\<rparr>],
      speakers = [''A'', ''B'']\<rparr>"

definition silence_result :: result where
  "silence_result =
     \<lparr>res_text = ''hello world'',
      segments = [\<lparr>seg_text = ''hello world'', seg_start = 0, seg_end = 2,
                   speaker = ''Unknown''\<rparr>],
      speakers = []\<rparr>"

text \<open>
  A labeled series with a tie in the chunk from 0 to 1: cluster 2 comes first and has two
  frames, cluster 1 has two frames, one frame is silent, and the frame of cluster 0 lies
  outside the chunk.
\<close>

definition labeled :: "real \<Rightarrow> int \<Rightarrow> labeled_vector" where
  "labeled t c = \<lparr>time = t, vector = [], cluster = c\<rparr>"

definition tie_frames :: "labeled_vector list" where
  "tie_frames =
     [labeled (1 / 10) 2, labeled (2 / 10) 1, labeled (3 / 10) (- 1), labeled (4 / 10) 1,
      labeled 1 2, labeled 5 0]"

definition tie_chunk :: chunk where
  "tie_chunk = \<lparr>chunk_text = ''hi'', timestamp = (0, 1)\<rparr>"

section \<open>Notions used in the statements\<close>

text \<open>
  The number of frames of a labeled series whose time lies in the range of a chunk, both
  ends included, and whose cluster is \<open>c\<close>.
\<close>

definition frame_count :: "labeled_vector list \<Rightarrow> chunk \<Rightarrow> int \<Rightarrow> nat" where
  "frame_count frames chunk' c =
     length (filter (\<lambda>f. fst (timestamp chunk') \<le> time f \<and> time f \<le> snd (timestamp chunk') \<and>
                         cluster f = c) frames)"

text \<open>The count stored under a key of the object of counts, 0 for a key not in it.\<close>

definition count_of :: "(int \<times> nat) list \<Rightarrow> int \<Rightarrow> nat" where
  "count_of m c = (case map_of m c of None \<Rightarrow> 0 | Some n \<Rightarrow> n)"

section \<open>Properties\<close>

subsection \<open>Lemmas on the pass\<close>

lemma merge_step_alt:
  "merge_step e (acc @ [p]) c =
     (if mergeable e p c then acc @ [merged p c] else acc @ [p, c])"
  by (simp add: merge_step_def mergeable_def merged_def Let_def)

lemma foldl_merge_step_prefix:
  "foldl (merge_step e) (acc @ [p]) cs = acc @ foldl (merge_step e) [p] cs"
proof (induction cs arbitrary: acc p)
  case Nil
  show ?case by simp
next
  case (Cons c cs)
  show ?case
  proof (cases "mergeable e p c")
    case True
    have "foldl (merge_step e) (acc @ [p]) (c # cs) = foldl (merge_step e) (acc @ [merged p c]) cs"
      using True by (simp add: merge_step_alt)
    also have "\<dots> = acc @ foldl (merge_step e) [merged p c] cs"
      by (rule Cons.IH)
    also have "foldl (merge_step e) [merged p c] cs = foldl (merge_step e) [p] (c # cs)"
      using True merge_step_alt [of e "[]" p c] by simp
    finally show ?thesis .
  next
    case False
    have "foldl (merge_step e) (acc @ [p]) (c # cs) = foldl (merge_step e) ((acc @ [p]) @ [c]) cs"
      using False by (simp add: merge_step_alt)
    also have "\<dots> = (acc @ [p]) @ foldl (merge_step e) [c] cs"
      by (rule Cons.IH)
    also have "\<dots> = acc @ foldl (merge_step e) ([] @ [p] @ [c]) cs"
      using Cons.IH [of "[p]" c] by simp
    also have "foldl (merge_step e) ([] @ [p] @ [c]) cs = foldl (merge_step e) [p] (c # cs)"
      using False merge_step_alt [of e "[]" p c] by simp
    finally show ?thesis .
  qed
qed

lemma map_nth_from_1: "map (\<lambda>i. (x # xs) ! i) [1..<length (x # xs)] = xs"
proof -
  have "[1..<length (x # xs)] = map Suc [0..<length xs]"
    by (simp add: map_Suc_upt del: upt_Suc)
  then have "map (\<lambda>i. (x # xs) ! i) [1..<length (x # xs)] = map (\<lambda>i. xs ! i) [0..<length xs]"
    by (simp del: upt_Suc)
  then show ?thesis by (simp add: map_nth)
qed

lemma optimizeSegments_Cons:
  "optimizeSegments e (s # rest) = foldl (merge_step e) [s] rest"
proof (cases rest)
  case Nil
  then show ?thesis by (simp add: optimizeSegments_def)
next
  case (Cons c cs)
  have "optimizeSegments e (s # rest) =
          foldl (merge_step e) [s] (map (\<lambda>i. (s # rest) ! i) [1..<length (s # rest)])"
    using Cons by (simp add: optimizeSegments_def)
  then show ?thesis by (simp only: map_nth_from_1)
qed

lemma optimizeSegments_merge:
  "mergeable e s c \<Longrightarrow> optimizeSegments e (s # c # rest) = optimizeSegments e (merged s c # rest)"
  using merge_step_alt [of e "[]" s c] by (simp add: optimizeSegments_Cons)

lemma optimizeSegments_keep:
  "\<not> mergeable e s c \<Longrightarrow> optimizeSegments e (s # c # rest) = s # optimizeSegments e (c # rest)"
  using merge_step_alt [of e "[]" s c] foldl_merge_step_prefix [of e "[s]" c rest]
  by (simp add: optimizeSegments_Cons)

lemma opt_hd:
  "optimizeSegments e (s # rest) \<noteq> [] \<and>
   speaker (hd (optimizeSegments e (s # rest))) = speaker s \<and>
   seg_start (hd (optimizeSegments e (s # rest))) = seg_start s"
proof (induction rest arbitrary: s)
  case Nil
  show ?case by (simp add: optimizeSegments_Cons)
next
  case (Cons c cs)
  show ?case
  proof (cases "mergeable e s c")
    case True
    then show ?thesis
      using Cons.IH [of "merged s c"] by (simp add: optimizeSegments_merge merged_def)
  next
    case False
    then show ?thesis by (simp add: optimizeSegments_keep)
  qed
qed

lemma mergeable_cong:
  "speaker y = speaker y' \<Longrightarrow> seg_start y = seg_start y' \<Longrightarrow> mergeable e x y = mergeable e x y'"
  by (simp add: mergeable_def)

lemma stable_Cons:
  "ys \<noteq> [] \<Longrightarrow> stable e ys \<Longrightarrow> \<not> mergeable e x (hd ys) \<Longrightarrow> stable e (x # ys)"
  by (cases ys) simp_all

lemma opt_stable_Cons: "stable e (optimizeSegments e (s # rest))"
proof (induction rest arbitrary: s)
  case Nil
  show ?case by (simp add: optimizeSegments_Cons)
next
  case (Cons c cs)
  show ?case
  proof (cases "mergeable e s c")
    case True
    then show ?thesis using Cons.IH [of "merged s c"] by (simp add: optimizeSegments_merge)
  next
    case False
    have "\<not> mergeable e s (hd (optimizeSegments e (c # cs)))"
      using False opt_hd [of e c cs] mergeable_cong [of "hd (optimizeSegments e (c # cs))" c e s]
      by simp
    then have "stable e (s # optimizeSegments e (c # cs))"
      using Cons.IH [of c] opt_hd [of e c cs] by (simp add: stable_Cons)
    then show ?thesis using False by (simp add: optimizeSegments_keep)
  qed
qed

lemma opt_stable: "stable e (optimizeSegments e xs)"
proof (cases xs)
  case Nil
  then show ?thesis by (simp add: optimizeSegments_def)
next
  case (Cons s rest)
  then show ?thesis by (simp add: opt_stable_Cons)
qed

lemma stable_fixed: "stable e xs \<Longrightarrow> optimizeSegments e xs = xs"
proof (induction e xs rule: stable.induct)
  case (1 e)
  show ?case by (simp add: optimizeSegments_def)
next
  case (2 e x)
  show ?case by (simp add: optimizeSegments_def)
next
  case (3 e x y zs)
  then show ?case by (simp add: optimizeSegments_keep)
qed

lemma stable_nth:
  "stable e xs \<Longrightarrow> Suc i < length xs \<Longrightarrow> \<not> mergeable e (xs ! i) (xs ! Suc i)"
proof (induction e xs arbitrary: i rule: stable.induct)
  case (3 e x y zs)
  then show ?case by (cases i) simp_all
qed simp_all

subsection \<open>Lemmas on the roster\<close>

lemma optimizeSegments_speakers_Cons:
  "speaker ` set (optimizeSegments e (s # rest)) = speaker ` set (s # rest)"
proof (induction rest arbitrary: s)
  case Nil
  show ?case by (simp add: optimizeSegments_Cons)
next
  case (Cons c cs)
  show ?case
  proof (cases "mergeable e s c")
    case True
    then have "speaker c = speaker s" by (simp add: mergeable_def)
    then show ?thesis
      using True Cons.IH [of "merged s c"] by (simp add: optimizeSegments_merge merged_def)
  next
    case False
    then show ?thesis using Cons.IH [of c] by (simp add: optimizeSegments_keep)
  qed
qed

lemma optimizeSegments_speakers:
  "speaker ` set (optimizeSegments e xs) = speaker ` set xs"
proof (cases xs)
  case Nil
  then show ?thesis by (simp add: optimizeSegments_def)
next
  case (Cons s rest)
  then show ?thesis by (simp only: optimizeSegments_speakers_Cons)
qed

lemma set_add_set: "set (set_add s x) = insert x (set s)"
  by (auto simp: set_add_def)

lemma set_add_distinct: "distinct s \<Longrightarrow> distinct (set_add s x)"
  by (simp add: set_add_def)

lemma unique_fold:
  "set (foldl (\<lambda>uniqueSpeakers segment'.
                 if speaker segment' \<noteq> ''Unknown''
                 then set_add uniqueSpeakers (speaker segment')
                 else uniqueSpeakers) acc segs) =
     set acc \<union> (speaker ` set segs - {''Unknown''})"
  by (induction segs arbitrary: acc) (auto simp: set_add_set)

lemma unique_fold_distinct:
  "distinct acc \<Longrightarrow>
   distinct (foldl (\<lambda>uniqueSpeakers segment'.
                 if speaker segment' \<noteq> ''Unknown''
                 then set_add uniqueSpeakers (speaker segment')
                 else uniqueSpeakers) acc segs)"
  by (induction segs arbitrary: acc) (auto simp: set_add_distinct)

lemma extractUniqueSpeakers_set:
  "set (extractUniqueSpeakers segs) = speaker ` set segs - {''Unknown''}"
  by (simp add: extractUniqueSpeakers_def unique_fold)

lemma extractUniqueSpeakers_distinct: "distinct (extractUniqueSpeakers segs)"
  by (simp add: extractUniqueSpeakers_def unique_fold_distinct)

subsection \<open>Lemmas on the run\<close>

lemma optimizeSegments_flag:
  "optimizeSegments (e\<lparr>isProcessing := b\<rparr>) xs = optimizeSegments e xs"
proof -
  have "merge_step (e\<lparr>isProcessing := b\<rparr>) = merge_step e"
    by (intro ext) (simp add: merge_step_def)
  then show ?thesis by (simp add: optimizeSegments_def)
qed

lemma processDiarization_success:
  assumes "processDiarization rnd e feats tr = (Inr r, e', trace)"
  shows "\<not> isProcessing e"
    and "\<exists>clusters.
           clusterFeatureVectors rnd (extractFeatureVectors feats) (maxSpeakers e) = Inr clusters \<and>
           segments r = optimizeSegments e
             (assignSpeakersToSegments clusters (extractFeatureVectors feats) (chunks tr))"
    and "res_text r = tr_text tr"
    and "speakers r = extractUniqueSpeakers (segments r)"
    and "e' = e\<lparr>isProcessing := False\<rparr>"
    and "trace = run_trace e r"
proof -
  show np: "\<not> isProcessing e"
    using assms by (auto simp: processDiarization_def)
  obtain clusters where
    cl: "clusterFeatureVectors rnd (extractFeatureVectors feats) (maxSpeakers e) = Inr clusters"
    using assms np
    by (cases "clusterFeatureVectors rnd (extractFeatureVectors feats) (maxSpeakers e)")
       (auto simp: processDiarization_def Let_def)
  have all: "r = \<lparr>res_text = tr_text tr,
                  segments = optimizeSegments e
                    (assignSpeakersToSegments clusters (extractFeatureVectors feats) (chunks tr)),
                  speakers = extractUniqueSpeakers (optimizeSegments e
                    (assignSpeakersToSegments clusters (extractFeatureVectors feats) (chunks tr)))\<rparr>
             \<and> e' = e\<lparr>isProcessing := False\<rparr> \<and> trace = run_trace e r"
    using assms np cl
    by (auto simp: processDiarization_def Let_def updateProgress_def run_trace_def
          optimizeSegments_flag)
  show "\<exists>clusters.
           clusterFeatureVectors rnd (extractFeatureVectors feats) (maxSpeakers e) = Inr clusters \<and>
           segments r = optimizeSegments e
             (assignSpeakersToSegments clusters (extractFeatureVectors feats) (chunks tr))"
    using cl all by auto
  show "res_text r = tr_text tr" using all by simp
  show "speakers r = extractUniqueSpeakers (segments r)" using all by simp
  show "e' = e\<lparr>isProcessing := False\<rparr>" using all by simp
  show "trace = run_trace e r" using all by simp
qed

lemma processDiarization_run:
  assumes "\<not> isProcessing e"
    and "clusterFeatureVectors rnd (extractFeatureVectors feats) (maxSpeakers e) = Inr clusters"
  shows "\<exists>r. processDiarization rnd e feats tr = (Inr r, e\<lparr>isProcessing := False\<rparr>, run_trace e r) \<and>
           segments r = optimizeSegments e
             (assignSpeakersToSegments clusters (extractFeatureVectors feats) (chunks tr)) \<and>
           res_text r = tr_text tr \<and> speakers r = extractUniqueSpeakers (segments r)"
  using assms
  by (simp add: processDiarization_def Let_def updateProgress_def run_trace_def
        optimizeSegments_flag)

lemma extractFeatureVectors_index1:
  "v \<in> set (extractFeatureVectors feats) \<Longrightarrow> js_nth (vector v) 1 = Some (vector v ! 1)"
  by (auto simp: extractFeatureVectors_def js_nth_def)

lemma clusterFeatureVectors_skip:
  assumes "\<forall>v \<in> set fvs. \<not> (case js_nth (vector v) 1 of None \<Rightarrow> False | Some x \<Rightarrow> x > 1 / 10)"
  shows "clusterFeatureVectors rnd fvs k = Inr []"
proof -
  have "filter (\<lambda>v. case js_nth (vector v) 1 of None \<Rightarrow> False | Some x \<Rightarrow> x > 1 / 10) fvs = []"
    using assms by (simp add: filter_empty_conv)
  then show ?thesis by (simp add: clusterFeatureVectors_def)
qed

lemma dominant_cluster_Nil: "dominant_cluster [] = - 1"
  by (simp add: dominant_cluster_def Object_entries_def tally_def scan_def)

lemma assign_no_frames:
  "s \<in> set (assignSpeakersToSegments [] fvs cs) \<Longrightarrow> speaker s = ''Unknown''"
  by (auto simp: assignSpeakersToSegments_def dominant_cluster_Nil speaker_label_def
        split: prod.splits)

lemma assign_no_frames_map:
  "assignSpeakersToSegments [] fvs cs =
     map (\<lambda>ch. \<lparr>seg_text = chunk_text ch, seg_start = fst (timestamp ch),
                 seg_end = snd (timestamp ch), speaker = ''Unknown''\<rparr>) cs"
  by (simp add: assignSpeakersToSegments_def case_prod_unfold dominant_cluster_Nil
        speaker_label_def)

subsection \<open>The example runs\<close>

lemma two_speakers_vectors: "extractFeatureVectors two_speakers =
   [\<lparr>time = 1 / 2, vector = [10, 1, 0, 0, 0, 0, 0]\<rparr>, \<lparr>time = 3 / 2, vector = [13, 5, 0, 0, 0, 0, 0]\<rparr>]"
  by (simp add: extractFeatureVectors_def two_speakers_def frame_def)

lemma distance_a_a: "euclideanDistance [10, 1, 0, 0, 0, 0, 0] (map Num [10, 1, 0, 0, 0, 0, 0]) = Num 0"
  by (simp add: euclideanDistance_def js_nth_def)

lemma distance_a_b: "euclideanDistance [10, 1, 0, 0, 0, 0, 0] (map Num [13, 5, 0, 0, 0, 0, 0]) = Num 5"
proof -
  have "sqrt 25 = (5::real)" using real_sqrt_abs [of 5] by simp
  then show ?thesis by (simp add: euclideanDistance_def js_nth_def)
qed

lemma distance_b_a: "euclideanDistance [13, 5, 0, 0, 0, 0, 0] (map Num [10, 1, 0, 0, 0, 0, 0]) = Num 5"
proof -
  have "sqrt 25 = (5::real)" using real_sqrt_abs [of 5] by simp
  then show ?thesis by (simp add: euclideanDistance_def js_nth_def)
qed

lemma distance_b_b: "euclideanDistance [13, 5, 0, 0, 0, 0, 0] (map Num [13, 5, 0, 0, 0, 0, 0]) = Num 0"
  by (simp add: euclideanDistance_def js_nth_def)

lemma upt_two: "[0..<2] = [0, Suc 0]"
  by (simp add: numeral_2_eq_2)

lemma two_speakers_kMeans: "kMeans_run draws [[10, 1, 0, 0, 0, 0, 0], [13, 5, 0, 0, 0, 0, 0]] 2 100 =
   Inr ([map Num [10, 1, 0, 0, 0, 0, 0], map Num [13, 5, 0, 0, 0, 0, 0]], [0, 1], 2, False)"
  using distance_a_a distance_a_b distance_b_a distance_b_b upt_two
  by (simp add: kMeans_run_def draws_def initial_centroid_def closestCentroid_def
        assign_step_def accumulate_step_def recompute_def kMeans_loop.simps)

lemma two_speakers_clusters: "clusterFeatureVectors draws (extractFeatureVectors two_speakers) 3 =
   Inr [\<lparr>time = 1 / 2, vector = [10, 1, 0, 0, 0, 0, 0], cluster = 0\<rparr>,
        \<lparr>time = 3 / 2, vector = [13, 5, 0, 0, 0, 0, 0], cluster = 1\<rparr>]"
  using distance_a_a distance_a_b distance_b_a distance_b_b two_speakers_kMeans
  by (simp add: two_speakers_vectors clusterFeatureVectors_def js_nth_def kMeansClustering_def)

lemma two_speakers_labels: "assignSpeakersToSegments
     [\<lparr>time = 1 / 2, vector = [10, 1, 0, 0, 0, 0, 0], cluster = 0\<rparr>,
      \<lparr>time = 3 / 2, vector = [13, 5, 0, 0, 0, 0, 0], cluster = 1\<rparr>]
     (extractFeatureVectors two_speakers) (chunks hello_world) =
   [\<lparr>seg_text = ''hello'', seg_start = 0, seg_end = 1, speaker = ''A''\<rparr>,
    \<lparr>seg_text = ''world'', seg_start = 6 / 5, seg_end = 2, speaker = ''B''\<rparr>]"
  by (simp add: assignSpeakersToSegments_def hello_world_def dominant_cluster_def tally_def
        scan_def count_cluster_def Object_entries_def speaker_label_def char_of_def)

lemma run_two_speakers: "processDiarization draws listening two_speakers hello_world =
  (Inr two_speakers_result, listening\<lparr>isProcessing := False\<rparr>,
   run_trace listening two_speakers_result)"
proof -
  have np: "\<not> isProcessing listening" and mx: "maxSpeakers listening = 3"
    by (simp_all add: listening_def SpeakerDiarization_new_def)
  obtain r where run: "processDiarization draws listening two_speakers hello_world =
       (Inr r, listening\<lparr>isProcessing := False\<rparr>, run_trace listening r)"
    and seg: "segments r = optimizeSegments listening
       (assignSpeakersToSegments
          [\<lparr>time = 1 / 2, vector = [10, 1, 0, 0, 0, 0, 0], cluster = 0\<rparr>,
           \<lparr>time = 3 / 2, vector = [13, 5, 0, 0, 0, 0, 0], cluster = 1\<rparr>]
          (extractFeatureVectors two_speakers) (chunks hello_world))"
    and rt: "res_text r = tr_text hello_world"
    and spk: "speakers r = extractUniqueSpeakers (segments r)"
    using processDiarization_run [OF np, of draws two_speakers _ hello_world] two_speakers_clusters mx by auto
  have seg': "segments r = segments two_speakers_result"
    unfolding seg two_speakers_labels
    by (simp add: optimizeSegments_Cons merge_step_def two_speakers_result_def)
  have spk': "speakers r = speakers two_speakers_result"
    unfolding spk seg'
    by (simp add: extractUniqueSpeakers_def set_add_def two_speakers_result_def)
  have "res_text r = res_text two_speakers_result"
    by (simp add: rt hello_world_def two_speakers_result_def)
  then have "r = two_speakers_result" using seg' spk' by simp
  then show ?thesis using run by simp
qed

lemma silence_quiet:
  "\<forall>v \<in> set (extractFeatureVectors silence). vector v ! 1 \<le> 1 / 10"
  by (simp add: extractFeatureVectors_def silence_def frame_def)

lemma listening_idle: "\<not> isProcessing listening"
  by (simp add: listening_def SpeakerDiarization_new_def)

lemma run_silence:
  assumes "\<not> isProcessing e" and "mergeThreshold e = 1 / 2"
  shows "processDiarization rnd e silence hello_world =
     (Inr silence_result, e\<lparr>isProcessing := False\<rparr>, run_trace e silence_result)"
proof -
  have skip: "clusterFeatureVectors rnd (extractFeatureVectors silence) (maxSpeakers e) = Inr []"
    by (rule clusterFeatureVectors_skip)
       (simp add: extractFeatureVectors_def silence_def frame_def js_nth_def)
  obtain r where run: "processDiarization rnd e silence hello_world =
       (Inr r, e\<lparr>isProcessing := False\<rparr>, run_trace e r)"
    and seg: "segments r = optimizeSegments e
       (assignSpeakersToSegments [] (extractFeatureVectors silence) (chunks hello_world))"
    and rt: "res_text r = tr_text hello_world"
    and spk: "speakers r = extractUniqueSpeakers (segments r)"
    using processDiarization_run [OF assms(1) skip, of hello_world] by auto
  have seg': "segments r = segments silence_result"
    unfolding seg
    by (simp add: assignSpeakersToSegments_def dominant_cluster_Nil speaker_label_def
          hello_world_def optimizeSegments_Cons merge_step_def silence_result_def assms(2))
  have spk': "speakers r = speakers silence_result"
    unfolding spk seg'
    by (simp add: extractUniqueSpeakers_def set_add_def silence_result_def)
  have "res_text r = res_text silence_result"
    by (simp add: rt hello_world_def silence_result_def)
  then have "r = silence_result" using seg' spk' by simp
  then show ?thesis using run by simp
qed

lemma listening_threshold: "mergeThreshold listening = 1 / 2"
  by (simp add: listening_def SpeakerDiarization_new_def)

section \<open>Claims on the segment optimization\<close>

text \<open>
  Claim C6. The pass is one traversal from left to right. With \<open>s\<close> the kept segment
  and \<open>c\<close> the next segment of the input, \<open>c\<close> is merged into \<open>s\<close> exactly when it has the
  speaker of \<open>s\<close> and starts at most \<open>mergeThreshold\<close> after the end of \<open>s\<close>; the merge
  sets the end of \<open>s\<close> to the end of \<open>c\<close> and appends one space and the text of \<open>c\<close> to the
  text of \<open>s\<close>, and the pass goes on with the merged segment as the kept one. Otherwise
  \<open>s\<close> is final and \<open>c\<close> is the new kept segment. A list of at most one segment is
  returned as it is.
\<close>

theorem optimizeSegments_single_pass:
  "optimizeSegments e [] = [] \<and>
   optimizeSegments e [s] = [s] \<and>
   optimizeSegments e (s # c # rest) =
     (if speaker c = speaker s \<and> seg_start c - seg_end s \<le> mergeThreshold e
      then optimizeSegments e
             (s\<lparr>seg_end := seg_end c, seg_text := seg_text s @ '' '' @ seg_text c\<rparr> # rest)
      else s # optimizeSegments e (c # rest))"
proof -
  have "optimizeSegments e [] = []" by (simp add: optimizeSegments_def)
  moreover have "optimizeSegments e [s] = [s]" by (simp add: optimizeSegments_def)
  moreover have "optimizeSegments e (s # c # rest) =
     (if speaker c = speaker s \<and> seg_start c - seg_end s \<le> mergeThreshold e
      then optimizeSegments e
             (s\<lparr>seg_end := seg_end c, seg_text := seg_text s @ '' '' @ seg_text c\<rparr> # rest)
      else s # optimizeSegments e (c # rest))"
    using optimizeSegments_merge [of e s c rest] optimizeSegments_keep [of e s c rest]
    by (simp add: mergeable_def merged_def)
  ultimately show ?thesis by blast
qed

theorem optimizeSegments_single_pass_witness:
  "optimizeSegments SpeakerDiarization_new
     [\<lparr>seg_text = ''hello'', seg_start = 0, seg_end = 1, speaker = ''A''\<rparr>,
      \<lparr>seg_text = ''world'', seg_start = 12 / 10, seg_end = 2, speaker = ''A''\<rparr>,
      \<lparr>seg_text = ''again'', seg_start = 3, seg_end = 4, speaker = ''A''\<rparr>,
      \<lparr>seg_text = ''yes'', seg_start = 4, seg_end = 5, speaker = ''B''\<rparr>] =
     [\<lparr>seg_text = ''hello world'', seg_start = 0, seg_end = 2, speaker = ''A''\<rparr>,
      \<lparr>seg_text = ''again'', seg_start = 3, seg_end = 4, speaker = ''A''\<rparr>,
      \<lparr>seg_text = ''yes'', seg_start = 4, seg_end = 5, speaker = ''B''\<rparr>]"
  by (simp add: optimizeSegments_single_pass SpeakerDiarization_new_def)

text \<open>
  Claim C7. The pass applied to its own output returns that output: no two neighbours
  of the output satisfy the merge condition.
\<close>

theorem optimizeSegments_idempotent:
  "optimizeSegments e (optimizeSegments e s) = optimizeSegments e s \<and>
   (\<forall>i. Suc i < length (optimizeSegments e s) \<longrightarrow>
      \<not> (speaker (optimizeSegments e s ! Suc i) = speaker (optimizeSegments e s ! i) \<and>
         seg_start (optimizeSegments e s ! Suc i) - seg_end (optimizeSegments e s ! i)
           \<le> mergeThreshold e))"
  using opt_stable [of e s] stable_fixed [of e "optimizeSegments e s"]
        stable_nth [of e "optimizeSegments e s"]
  by (simp add: mergeable_def)

theorem optimizeSegments_idempotent_witness:
  "optimizeSegments SpeakerDiarization_new
     (optimizeSegments SpeakerDiarization_new
        [\<lparr>seg_text = ''a'', seg_start = 0, seg_end = 1, speaker = ''A''\<rparr>,
         \<lparr>seg_text = ''b'', seg_start = 1, seg_end = 2, speaker = ''A''\<rparr>,
         \<lparr>seg_text = ''c'', seg_start = 3, seg_end = 4, speaker = ''A''\<rparr>]) =
     [\<lparr>seg_text = ''a b'', seg_start = 0, seg_end = 2, speaker = ''A''\<rparr>,
      \<lparr>seg_text = ''c'', seg_start = 3, seg_end = 4, speaker = ''A''\<rparr>] \<and>
   Suc 0 < length [\<lparr>seg_text = ''a b'', seg_start = 0, seg_end = 2, speaker = ''A''\<rparr>,
                   \<lparr>seg_text = ''c'', seg_start = 3, seg_end = 4, speaker = ''A''\<rparr>] \<and>
   \<not> (''A'' = ''A'' \<and> (3::real) - 2 \<le> mergeThreshold SpeakerDiarization_new)"
proof -
  let ?e = SpeakerDiarization_new
  let ?s = "[\<lparr>seg_text = ''a'', seg_start = 0, seg_end = 1, speaker = ''A''\<rparr>,
             \<lparr>seg_text = ''b'', seg_start = 1, seg_end = 2, speaker = ''A''\<rparr>,
             \<lparr>seg_text = ''c'', seg_start = 3, seg_end = 4, speaker = ''A''\<rparr>]"
  have run: "optimizeSegments ?e ?s =
     [\<lparr>seg_text = ''a b'', seg_start = 0, seg_end = 2, speaker = ''A''\<rparr>,
      \<lparr>seg_text = ''c'', seg_start = 3, seg_end = 4, speaker = ''A''\<rparr>]"
    by (simp add: optimizeSegments_Cons merge_step_def SpeakerDiarization_new_def)
  show ?thesis
    using optimizeSegments_idempotent [of ?e ?s] unfolding run
    by (simp add: SpeakerDiarization_new_def)
qed


section \<open>Claims on the run\<close>

text \<open>
  Claim C4. A call made while a run is in flight throws the busy error, leaves the
  engine as it is (the flag stays set, the configuration and the callback slots are
  unchanged) and calls no callback. The flag is set only between the start of a run and
  its end, while the run awaits the clustering.
\<close>

theorem processDiarization_busy:
  "isProcessing e \<Longrightarrow>
     processDiarization rnd e audioFeatures' transcription' = (Inl Busy, e, [])"
  by (simp add: processDiarization_def)

theorem processDiarization_busy_witness:
  "isProcessing (listening\<lparr>isProcessing := True\<rparr>) \<and>
   processDiarization draws (listening\<lparr>isProcessing := True\<rparr>) two_speakers hello_world =
     (Inl Busy, listening\<lparr>isProcessing := True\<rparr>, [])"
  using processDiarization_busy
          [of "listening\<lparr>isProcessing := True\<rparr>" draws two_speakers hello_world]
  by simp

text \<open>
  Claim C10. The text of the result of a run that succeeds is the text of the
  transcription passed in; the completion callback, when it is called, is called with
  that result, and it is called whenever its slot is set.
\<close>

theorem processDiarization_text:
  "processDiarization rnd e audioFeatures' transcription' = (Inr r, e', trace) \<Longrightarrow>
     res_text r = tr_text transcription' \<and>
     (\<forall>r'. ProcessingComplete r' \<in> set trace \<longrightarrow>
            r' = r \<and> res_text r' = tr_text transcription') \<and>
     (onProcessingComplete e \<longrightarrow> ProcessingComplete r \<in> set trace)"
  using processDiarization_success(3,6) [of rnd e audioFeatures' transcription' r e' trace]
  by (auto simp: run_trace_def split: if_splits)

theorem processDiarization_text_witness:
  "processDiarization draws listening two_speakers hello_world =
     (Inr two_speakers_result, listening\<lparr>isProcessing := False\<rparr>,
      run_trace listening two_speakers_result) \<and>
   res_text two_speakers_result = tr_text hello_world \<and>
   tr_text hello_world = ''hello world'' \<and>
   onProcessingComplete listening \<and>
   ProcessingComplete two_speakers_result \<in> set (run_trace listening two_speakers_result)"
  using processDiarization_text [OF run_two_speakers] run_two_speakers
  by (simp add: listening_def hello_world_def)

text \<open>
  Claim C3, as amended. \<open>updateProgress\<close> calls the progress callback only when the slot
  is set. On an engine with the slot set, the progress updates of a run that succeeds
  are the five milestones 0.1, 0.3, 0.6, 0.8 and 1, each with its phase message, in this
  order and once each, whatever the input; with the slot empty the run emits no progress
  update.
\<close>

theorem processDiarization_progress:
  "processDiarization rnd e audioFeatures' transcription' = (Inr r, e', trace) \<Longrightarrow>
     progress_updates trace =
       (if onProcessingProgress e
        then [(1 / 10, MsgExtracting), (3 / 10, MsgClustering), (6 / 10, MsgAssigning),
              (8 / 10, MsgOptimizing), (1, MsgDone)]
        else [])"
  using processDiarization_success(6) [of rnd e audioFeatures' transcription' r e' trace]
  by (auto simp: run_trace_def)

theorem processDiarization_progress_witness:
  "processDiarization draws listening silence hello_world =
     (Inr silence_result, listening\<lparr>isProcessing := False\<rparr>,
      run_trace listening silence_result) \<and>
   onProcessingProgress listening \<and>
   progress_updates (run_trace listening silence_result) =
     [(1 / 10, MsgExtracting), (3 / 10, MsgClustering), (6 / 10, MsgAssigning),
      (8 / 10, MsgOptimizing), (1, MsgDone)]"
  using processDiarization_progress
          [OF run_silence [OF listening_idle listening_threshold, of draws]]
        run_silence [OF listening_idle listening_threshold, of draws]
  by (simp add: listening_def)

text \<open>
  Claim C3 as stated fails on the engine as the constructor leaves it: the run on the
  silent recording succeeds and no progress update is emitted.
\<close>

theorem progress_without_callback_counterexample:
  "fst (processDiarization draws SpeakerDiarization_new silence hello_world) = Inr silence_result \<and>
   progress_updates (snd (snd (processDiarization draws SpeakerDiarization_new silence hello_world))) = []"
proof -
  have "processDiarization draws SpeakerDiarization_new silence hello_world =
     (Inr silence_result, SpeakerDiarization_new\<lparr>isProcessing := False\<rparr>,
      run_trace SpeakerDiarization_new silence_result)"
    by (rule run_silence) (simp_all add: SpeakerDiarization_new_def)
  then show ?thesis by (simp add: run_trace_def SpeakerDiarization_new_def)
qed

text \<open>
  Claim C9. When the entry at index 1 of no feature vector exceeds 0.1, the clustering
  step returns the empty series without running k-means, whatever the random source and
  the number of speakers. The labelling then gives every chunk of the transcription one
  segment with its text, start and end and the speaker \<open>Unknown\<close>; the run succeeds, the
  segments of its result are the merge pass over these segments (none is lost: the result
  has no segment only for a transcription with no chunk), every one has the speaker
  \<open>Unknown\<close>, and the list of speakers is empty.
\<close>

theorem no_active_frames_all_unknown:
  assumes "\<not> isProcessing e"
    and "\<forall>v \<in> set (extractFeatureVectors audioFeatures'). vector v ! 1 \<le> 1 / 10"
  shows "clusterFeatureVectors rnd (extractFeatureVectors audioFeatures') (maxSpeakers e) = Inr [] \<and>
         assignSpeakersToSegments [] (extractFeatureVectors audioFeatures')
             (chunks transcription') =
           map (\<lambda>ch. \<lparr>seg_text = chunk_text ch, seg_start = fst (timestamp ch),
                       seg_end = snd (timestamp ch), speaker = ''Unknown''\<rparr>)
             (chunks transcription') \<and>
         (\<exists>r e' trace.
            processDiarization rnd e audioFeatures' transcription' = (Inr r, e', trace) \<and>
            segments r =
              optimizeSegments e
                (map (\<lambda>ch. \<lparr>seg_text = chunk_text ch, seg_start = fst (timestamp ch),
                            seg_end = snd (timestamp ch), speaker = ''Unknown''\<rparr>)
                   (chunks transcription')) \<and>
            (segments r = [] \<longleftrightarrow> chunks transcription' = []) \<and>
            (\<forall>s \<in> set (segments r). speaker s = ''Unknown'') \<and>
            ''Unknown'' \<notin> set (speakers r) \<and>
            speakers r = [])"
proof -
  let ?unknown = "map (\<lambda>ch. \<lparr>seg_text = chunk_text ch, seg_start = fst (timestamp ch),
                       seg_end = snd (timestamp ch), speaker = ''Unknown''\<rparr>)
                    (chunks transcription')"
  have skip: "clusterFeatureVectors rnd (extractFeatureVectors audioFeatures') (maxSpeakers e) = Inr []"
  proof (rule clusterFeatureVectors_skip, rule ballI)
    fix v assume v: "v \<in> set (extractFeatureVectors audioFeatures')"
    then have "vector v ! 1 \<le> 1 / 10" using assms(2) by blast
    then show "\<not> (case js_nth (vector v) 1 of None \<Rightarrow> False | Some x \<Rightarrow> x > 1 / 10)"
      using extractFeatureVectors_index1 [OF v] by simp
  qed
  have labels: "assignSpeakersToSegments [] (extractFeatureVectors audioFeatures')
                  (chunks transcription') = ?unknown"
    by (rule assign_no_frames_map)
  obtain r where run:
    "processDiarization rnd e audioFeatures' transcription' =
       (Inr r, e\<lparr>isProcessing := False\<rparr>, run_trace e r)"
    and seg: "segments r = optimizeSegments e
       (assignSpeakersToSegments [] (extractFeatureVectors audioFeatures') (chunks transcription'))"
    and spk: "speakers r = extractUniqueSpeakers (segments r)"
    using processDiarization_run [OF assms(1) skip, of transcription'] by blast
  have seg': "segments r = optimizeSegments e ?unknown" using seg labels by simp
  have "speaker ` set (segments r) = speaker ` set ?unknown"
    unfolding seg' by (rule optimizeSegments_speakers)
  then have unknown: "\<forall>s \<in> set (segments r). speaker s = ''Unknown''" by auto
  have none: "segments r = [] \<longleftrightarrow> chunks transcription' = []"
  proof (cases "chunks transcription'")
    case Nil
    then show ?thesis using seg' by (simp add: optimizeSegments_def)
  next
    case (Cons c cs)
    then show ?thesis using seg' opt_hd [of e] by simp
  qed
  have "set (speakers r) = {}"
    using unknown by (auto simp: spk extractUniqueSpeakers_set)
  then have empty: "speakers r = []" by simp
  show ?thesis using skip labels run seg' none unknown empty by auto
qed

theorem no_active_frames_all_unknown_witness:
  "list_all (\<lambda>v. vector v ! 1 \<le> 1 / 10) (extractFeatureVectors silence) \<and>
   \<not> isProcessing listening \<and>
   clusterFeatureVectors draws (extractFeatureVectors silence) (maxSpeakers listening) = Inr [] \<and>
   assignSpeakersToSegments [] (extractFeatureVectors silence) (chunks hello_world) =
     [\<lparr>seg_text = ''hello'', seg_start = 0, seg_end = 1, speaker = ''Unknown''\<rparr>,
      \<lparr>seg_text = ''world'', seg_start = 6 / 5, seg_end = 2, speaker = ''Unknown''\<rparr>] \<and>
   (\<exists>r e' trace.
      processDiarization draws listening silence hello_world = (Inr r, e', trace) \<and>
      segments r =
        [\<lparr>seg_text = ''hello world'', seg_start = 0, seg_end = 2, speaker = ''Unknown''\<rparr>] \<and>
      ''Unknown'' \<notin> set (speakers r) \<and>
      speakers r = [])"
proof -
  have lab: "map (\<lambda>ch. \<lparr>seg_text = chunk_text ch, seg_start = fst (timestamp ch),
                   seg_end = snd (timestamp ch), speaker = ''Unknown''\<rparr>) (chunks hello_world) =
     [\<lparr>seg_text = ''hello'', seg_start = 0, seg_end = 1, speaker = ''Unknown''\<rparr>,
      \<lparr>seg_text = ''world'', seg_start = 6 / 5, seg_end = 2, speaker = ''Unknown''\<rparr>]"
    by (simp add: hello_world_def)
  have opt: "optimizeSegments listening
     [\<lparr>seg_text = ''hello'', seg_start = 0, seg_end = 1, speaker = ''Unknown''\<rparr>,
      \<lparr>seg_text = ''world'', seg_start = 6 / 5, seg_end = 2, speaker = ''Unknown''\<rparr>] =
     [\<lparr>seg_text = ''hello world'', seg_start = 0, seg_end = 2, speaker = ''Unknown''\<rparr>]"
    by (simp add: optimizeSegments_Cons merge_step_def listening_threshold)
  from no_active_frames_all_unknown [OF listening_idle silence_quiet, of draws hello_world]
  obtain r e' trace where
    skip: "clusterFeatureVectors draws (extractFeatureVectors silence) (maxSpeakers listening) =
             Inr []"
    and labels: "assignSpeakersToSegments [] (extractFeatureVectors silence) (chunks hello_world) =
       [\<lparr>seg_text = ''hello'', seg_start = 0, seg_end = 1, speaker = ''Unknown''\<rparr>,
        \<lparr>seg_text = ''world'', seg_start = 6 / 5, seg_end = 2, speaker = ''Unknown''\<rparr>]"
    and run: "processDiarization draws listening silence hello_world = (Inr r, e', trace)"
    and seg: "segments r =
       [\<lparr>seg_text = ''hello world'', seg_start = 0, seg_end = 2, speaker = ''Unknown''\<rparr>]"
    and roster: "''Unknown'' \<notin> set (speakers r)" "speakers r = []"
    unfolding lab opt by blast
  have quiet: "list_all (\<lambda>v. vector v ! 1 \<le> 1 / 10) (extractFeatureVectors silence)"
    using silence_quiet by (simp add: list_all_iff)
  show ?thesis using quiet listening_idle skip labels run seg roster by blast
qed

section \<open>Claims on the spectral flux\<close>

text \<open>
  Claim C1, as amended. On a processor whose previous spectrum is not set, as the
  constructor leaves it, the flux computation returns 0 and stores a zero-filled
  spectrum of the length of the frame. \<open>resetAudioFeatures\<close> empties the feature series
  and leaves the previous spectrum as it is.
\<close>

theorem first_flux_zero:
  "(prevFreqData p = None \<longrightarrow>
      calculateSpectralFlux freqData p =
        Inr (0, p\<lparr>prevFreqData := Some (replicate (length freqData) 0)\<rparr>)) \<and>
   prevFreqData (AudioProcessor_new :: 'f audio_processor) = None \<and>
   prevFreqData (resetAudioFeatures p) = prevFreqData p \<and>
   getAudioFeatures (resetAudioFeatures p) = []"
  by (simp add: calculateSpectralFlux_def AudioProcessor_new_def resetAudioFeatures_def
        getAudioFeatures_def)

theorem first_flux_zero_witness:
  "prevFreqData (AudioProcessor_new :: unit audio_processor) = None \<and>
   calculateSpectralFlux [20, - 40] (AudioProcessor_new :: unit audio_processor) =
     Inr (0, \<lparr>prevFreqData = Some [0, 0], audioFeatures = []\<rparr>)"
  using first_flux_zero [of "AudioProcessor_new :: unit audio_processor" "[20, - 40]"]
  by (simp add: AudioProcessor_new_def numeral_2_eq_2)

text \<open>
  Claim C1 as stated fails after a reset: the first frame \<open>[20]\<close> of a recording leaves
  the zero spectrum \<open>[0]\<close> in the slot and one frame in the series; after the reset, the
  flux of the next frame \<open>[20]\<close> is taken against that spectrum and is 9, and the slot then
  holds \<open>[20]\<close>.
\<close>

theorem flux_after_reset_counterexample:
  "calculateSpectralFlux [20] (AudioProcessor_new :: unit audio_processor) =
     Inr (0, \<lparr>prevFreqData = Some [0], audioFeatures = []\<rparr>) \<and>
   calculateSpectralFlux [20]
       (resetAudioFeatures \<lparr>prevFreqData = Some [0], audioFeatures = [()]\<rparr>) =
     Inr (9, \<lparr>prevFreqData = Some [20], audioFeatures = []\<rparr>)"
proof -
  have "sqrt 81 = (9::real)" using real_sqrt_abs [of 9] by simp
  then show ?thesis
    by (simp add: calculateSpectralFlux_def AudioProcessor_new_def resetAudioFeatures_def
          magnitude_def)
qed


section \<open>Lemmas on the labelling of chunks\<close>

lemma count_cluster_keys: "fst ` set (count_cluster m c) = insert c (fst ` set m)"
proof (cases "map_of m c")
  case None
  then show ?thesis by (simp add: count_cluster_def)
next
  case (Some n)
  then have "(c, n) \<in> set m" by (rule map_of_SomeD)
  then have "c \<in> fst ` set m" by force
  moreover have "fst ` set (map (\<lambda>(c', n'). if c' = c then (c', n' + 1) else (c', n')) m) = fst ` set m"
    by (force simp: image_iff split: prod.splits if_splits)
  ultimately show ?thesis using Some by (auto simp: count_cluster_def)
qed

lemma map_fst_bump:
  "map fst (map (\<lambda>(c', n'). if c' = c then (c', n' + 1) else (c', n')) m) = map fst m"
  by (induction m) (auto split: prod.splits)

lemma count_cluster_distinct:
  "distinct (map fst m) \<Longrightarrow> distinct (map fst (count_cluster m c))"
proof (cases "map_of m c")
  case None
  assume "distinct (map fst m)"
  moreover have "c \<notin> fst ` set m" using None by (simp add: map_of_eq_None_iff)
  ultimately show ?thesis using None by (simp add: count_cluster_def)
next
  case (Some n)
  assume "distinct (map fst m)"
  then have "distinct (map fst (map (\<lambda>(c', n'). if c' = c then (c', n' + 1) else (c', n')) m))"
    by (simp only: map_fst_bump)
  then show ?thesis using Some by (simp add: count_cluster_def del: map_map)
qed

lemma map_of_bump:
  "map_of (map (\<lambda>(c', n'). if c' = c then (c', n' + 1) else (c', n')) m) c' =
     (if c' = c then map_option (\<lambda>n. n + 1) (map_of m c') else map_of m c')"
  by (induction m) (auto split: prod.splits)

lemma count_cluster_count:
  "count_of (count_cluster m c) c' = count_of m c' + (if c' = c then 1 else 0)"
proof (cases "map_of m c")
  case None
  then show ?thesis by (auto simp: count_cluster_def count_of_def split: option.splits)
next
  case (Some n)
  then show ?thesis
    by (auto simp: count_cluster_def count_of_def map_of_bump split: option.splits)
qed

lemma count_cluster_positive:
  "\<forall>(c', n) \<in> set m. 0 < n \<Longrightarrow> \<forall>(c', n) \<in> set (count_cluster m c). 0 < n"
  by (cases "map_of m c") (auto simp: count_cluster_def split: if_splits)

lemma tally_simps:
  "tally acc [] = acc"
  "tally acc (f # fs) =
     tally (if cluster f \<ge> 0 then count_cluster acc (cluster f) else acc) fs"
  by (simp_all add: tally_def)

lemma tally_distinct: "distinct (map fst acc) \<Longrightarrow> distinct (map fst (tally acc fs))"
  by (induction fs arbitrary: acc) (simp_all add: tally_simps count_cluster_distinct)

lemma tally_positive:
  "\<forall>(c, n) \<in> set acc. 0 < n \<Longrightarrow> \<forall>(c, n) \<in> set (tally acc fs). 0 < n"
proof (induction fs arbitrary: acc)
  case Nil
  then show ?case by (simp add: tally_simps)
next
  case (Cons f fs)
  show ?case
    unfolding tally_simps
    by (rule Cons.IH) (use Cons.prems count_cluster_positive in auto)
qed

lemma tally_keys:
  "fst ` set (tally acc fs) = fst ` set acc \<union> {c. 0 \<le> c \<and> c \<in> cluster ` set fs}"
  by (induction fs arbitrary: acc) (auto simp: tally_simps count_cluster_keys)

lemma tally_count:
  "count_of (tally acc fs) c =
     count_of acc c + (if 0 \<le> c then length (filter (\<lambda>f. cluster f = c) fs) else 0)"
  by (induction fs arbitrary: acc) (auto simp: tally_simps count_cluster_count)

lemma count_of_member:
  "distinct (map fst m) \<Longrightarrow> (c, n) \<in> set m \<Longrightarrow> count_of m c = n"
  by (simp add: count_of_def)

lemma scan_simps:
  "scan st [] = st"
  "scan (d, m) ((c, n) # es) = scan (if n > m then (c, n) else (d, m)) es"
  by (simp_all add: scan_def)

lemma scan_spec:
  assumes "sorted (map fst es)"
  shows "(scan (d0, m0) es = (d0, m0) \<and> (\<forall>(c, n) \<in> set es. n \<le> m0)) \<or>
         (scan (d0, m0) es \<in> set es \<and> m0 < snd (scan (d0, m0) es) \<and>
          (\<forall>(c, n) \<in> set es. n \<le> snd (scan (d0, m0) es) \<and>
               (n = snd (scan (d0, m0) es) \<longrightarrow> fst (scan (d0, m0) es) \<le> c)))"
  using assms
proof (induction es arbitrary: d0 m0)
  case Nil
  show ?case by (simp add: scan_simps)
next
  case (Cons e es)
  obtain c n where e: "e = (c, n)" by (cases e)
  have sorted: "sorted (map fst es)" and least: "\<forall>(c', n') \<in> set es. c \<le> c'"
    using Cons.prems e by auto
  show ?case
  proof (cases "n > m0")
    case True
    then have step: "scan (d0, m0) (e # es) = scan (c, n) es" by (simp add: e scan_simps)
    from Cons.IH [OF sorted, of c n] show ?thesis
    proof
      assume "scan (c, n) es = (c, n) \<and> (\<forall>(c, n') \<in> set es. n' \<le> n)"
      then show ?thesis using True least unfolding step by (auto simp: e)
    next
      assume "scan (c, n) es \<in> set es \<and> n < snd (scan (c, n) es) \<and>
          (\<forall>(c', n') \<in> set es. n' \<le> snd (scan (c, n) es) \<and>
               (n' = snd (scan (c, n) es) \<longrightarrow> fst (scan (c, n) es) \<le> c'))"
      then show ?thesis using True unfolding step by (auto simp: e)
    qed
  next
    case False
    then have step: "scan (d0, m0) (e # es) = scan (d0, m0) es" by (simp add: e scan_simps)
    from Cons.IH [OF sorted, of d0 m0] show ?thesis
    proof
      assume "scan (d0, m0) es = (d0, m0) \<and> (\<forall>(c, n) \<in> set es. n \<le> m0)"
      then show ?thesis using False unfolding step by (auto simp: e)
    next
      assume "scan (d0, m0) es \<in> set es \<and> m0 < snd (scan (d0, m0) es) \<and>
          (\<forall>(c', n') \<in> set es. n' \<le> snd (scan (d0, m0) es) \<and>
               (n' = snd (scan (d0, m0) es) \<longrightarrow> fst (scan (d0, m0) es) \<le> c'))"
      then show ?thesis using False unfolding step by (auto simp: e)
    qed
  qed
qed

lemma dominant_cluster_scan:
  "dominant_cluster fs = fst (scan (- 1, 0) (Object_entries (tally [] fs)))"
  by (simp add: dominant_cluster_def)


lemma count_of_empty: "count_of [] c = 0"
  by (simp add: count_of_def)

lemma tally_member:
  "(c, n) \<in> set (tally [] fs) \<longleftrightarrow> 0 \<le> c \<and> n = length (filter (\<lambda>f. cluster f = c) fs) \<and> 0 < n"
proof
  assume mem: "(c, n) \<in> set (tally [] fs)"
  have d: "distinct (map fst (tally [] fs))" by (rule tally_distinct) simp
  have "c \<in> fst ` set (tally [] fs)" using mem by force
  then have c: "0 \<le> c" by (simp add: tally_keys)
  have "count_of (tally [] fs) c = n" using d mem by (rule count_of_member)
  then have n: "n = length (filter (\<lambda>f. cluster f = c) fs)"
    unfolding tally_count count_of_empty using c by simp
  have "\<forall>(c, n) \<in> set (tally [] fs). 0 < n" by (rule tally_positive) simp
  then have "0 < n" using mem by auto
  then show "0 \<le> c \<and> n = length (filter (\<lambda>f. cluster f = c) fs) \<and> 0 < n"
    using c n by simp
next
  assume a: "0 \<le> c \<and> n = length (filter (\<lambda>f. cluster f = c) fs) \<and> 0 < n"
  then have "filter (\<lambda>f. cluster f = c) fs \<noteq> []" by auto
  then obtain f where "f \<in> set fs" "cluster f = c"
    by (metis (mono_tags, lifting) filter_False)
  then have "c \<in> fst ` set (tally [] fs)" using a by (auto simp: tally_keys)
  then obtain n' where mem: "(c, n') \<in> set (tally [] fs)" by auto
  have d: "distinct (map fst (tally [] fs))" by (rule tally_distinct) simp
  have "count_of (tally [] fs) c = n'" using d mem by (rule count_of_member)
  then have "n' = n" unfolding tally_count count_of_empty using a by simp
  then show "(c, n) \<in> set (tally [] fs)" using mem by simp
qed

lemma dominant_cluster_silent:
  assumes "\<forall>f \<in> set fs. cluster f < 0"
  shows "dominant_cluster fs = - 1"
proof -
  have "fst ` set (tally [] fs) = {}" using assms by (auto simp: tally_keys)
  then have "tally [] fs = []" by simp
  then show ?thesis by (simp add: dominant_cluster_scan Object_entries_def scan_simps)
qed

lemma dominant_cluster_spec:
  assumes "\<exists>f \<in> set fs. 0 \<le> cluster f"
  defines "cnt \<equiv> \<lambda>c. length (filter (\<lambda>f. cluster f = c) fs)"
  shows "0 \<le> dominant_cluster fs \<and> 0 < cnt (dominant_cluster fs) \<and>
         (\<forall>c \<ge> 0. cnt c \<le> cnt (dominant_cluster fs)) \<and>
         (\<forall>c \<ge> 0. cnt c = cnt (dominant_cluster fs) \<longrightarrow> dominant_cluster fs \<le> c)"
proof -
  let ?es = "Object_entries (tally [] fs)"
  let ?r = "scan (- 1, 0) ?es"
  have set_es: "set ?es = set (tally [] fs)" by (simp add: Object_entries_def)
  have sorted: "sorted (map fst ?es)" by (simp add: Object_entries_def)
  obtain f where f: "f \<in> set fs" "0 \<le> cluster f" using assms(1) by blast
  then have "filter (\<lambda>g. cluster g = cluster f) fs \<noteq> []"
    by (auto simp: filter_empty_conv)
  then have pos: "0 < cnt (cluster f)" by (simp add: cnt_def)
  then have mem_f: "(cluster f, cnt (cluster f)) \<in> set ?es"
    using f by (simp add: set_es tally_member cnt_def)
  from scan_spec [OF sorted, of "- 1" 0]
  have main: "?r \<in> set ?es \<and>
          (\<forall>(c, n) \<in> set ?es. n \<le> snd ?r \<and> (n = snd ?r \<longrightarrow> fst ?r \<le> c))"
  proof
    assume "?r = (- 1, 0) \<and> (\<forall>(c, n) \<in> set ?es. n \<le> 0)"
    then have "cnt (cluster f) \<le> 0" using mem_f by auto
    then show ?thesis using pos by simp
  next
    assume "?r \<in> set ?es \<and> 0 < snd ?r \<and>
          (\<forall>(c, n) \<in> set ?es. n \<le> snd ?r \<and> (n = snd ?r \<longrightarrow> fst ?r \<le> c))"
    then show ?thesis by blast
  qed
  have d: "dominant_cluster fs = fst ?r" by (rule dominant_cluster_scan)
  have "(fst ?r, snd ?r) \<in> set (tally [] fs)" using main set_es by simp
  then have "0 \<le> fst ?r \<and> snd ?r = cnt (fst ?r) \<and> 0 < snd ?r"
    unfolding cnt_def using tally_member [of "fst ?r" "snd ?r" fs] by blast
  then have r: "0 \<le> fst ?r" "snd ?r = cnt (fst ?r)" "0 < snd ?r"
    by blast+
  have le: "cnt c \<le> cnt (fst ?r) \<and> (cnt c = cnt (fst ?r) \<longrightarrow> fst ?r \<le> c)" if "0 \<le> c" for c
  proof (cases "0 < cnt c")
    case True
    then have "(c, cnt c) \<in> set ?es" using that by (simp add: set_es tally_member cnt_def)
    then show ?thesis using main r(2) by auto
  next
    case False
    then show ?thesis using r by simp
  qed
  show ?thesis using r le by (simp add: d)
qed

lemma filter_range_cluster:
  "length (filter (\<lambda>f. cluster f = c)
       (filter (\<lambda>f. time f \<ge> a \<and> time f \<le> b) frames)) =
   length (filter (\<lambda>f. a \<le> time f \<and> time f \<le> b \<and> cluster f = c) frames)"
  by (simp add: conj_commute conj_left_commute)

section \<open>Claims on the labelling of chunks\<close>

text \<open>
  Claim C5. For a labeled series and a list of chunks, the labelling returns one segment
  for each chunk, in order, with the text, the start and the end of the chunk. With the
  count of an id \<open>c\<close> the number of frames of the series whose time lies in the range of
  the chunk, both ends included, and whose cluster is \<open>c\<close>: when no id from 0 on has a
  frame, the speaker is \<open>Unknown\<close>; otherwise the speaker is the letter with code
  \<open>65 + d mod 26\<close> for the id \<open>d\<close> from 0 on that has the highest count and is the lowest
  among the ids with that count.
\<close>

theorem assignSpeakersToSegments_dominant:
  "length (assignSpeakersToSegments frames featureVectors transcriptionChunks) =
     length transcriptionChunks \<and>
   (\<forall>i < length transcriptionChunks.
      seg_text (assignSpeakersToSegments frames featureVectors transcriptionChunks ! i) =
        chunk_text (transcriptionChunks ! i) \<and>
      seg_start (assignSpeakersToSegments frames featureVectors transcriptionChunks ! i) =
        fst (timestamp (transcriptionChunks ! i)) \<and>
      seg_end (assignSpeakersToSegments frames featureVectors transcriptionChunks ! i) =
        snd (timestamp (transcriptionChunks ! i)) \<and>
      (if \<forall>c \<ge> 0. frame_count frames (transcriptionChunks ! i) c = 0
       then speaker (assignSpeakersToSegments frames featureVectors transcriptionChunks ! i) =
              ''Unknown''
       else \<exists>d \<ge> 0.
              speaker (assignSpeakersToSegments frames featureVectors transcriptionChunks ! i) =
                [char_of (65 + d mod 26)] \<and>
              0 < frame_count frames (transcriptionChunks ! i) d \<and>
              (\<forall>c \<ge> 0. frame_count frames (transcriptionChunks ! i) c \<le>
                        frame_count frames (transcriptionChunks ! i) d) \<and>
              (\<forall>c \<ge> 0. frame_count frames (transcriptionChunks ! i) c =
                        frame_count frames (transcriptionChunks ! i) d \<longrightarrow> d \<le> c)))"
proof (intro conjI allI impI)
  show "length (assignSpeakersToSegments frames featureVectors transcriptionChunks) =
     length transcriptionChunks"
    by (simp add: assignSpeakersToSegments_def)
next
  fix i assume i: "i < length transcriptionChunks"
  let ?ch = "transcriptionChunks ! i"
  let ?s = "assignSpeakersToSegments frames featureVectors transcriptionChunks ! i"
  let ?rel = "filter (\<lambda>f. time f \<ge> fst (timestamp ?ch) \<and> time f \<le> snd (timestamp ?ch)) frames"
  have s: "?s = \<lparr>seg_text = chunk_text ?ch, seg_start = fst (timestamp ?ch),
                 seg_end = snd (timestamp ?ch),
                 speaker = speaker_label (dominant_cluster ?rel)\<rparr>"
    using i by (simp add: assignSpeakersToSegments_def split: prod.splits)
  show "seg_text ?s = chunk_text ?ch" by (simp add: s)
  show "seg_start ?s = fst (timestamp ?ch)" by (simp add: s)
  show "seg_end ?s = snd (timestamp ?ch)" by (simp add: s)
  have cnt: "length (filter (\<lambda>f. cluster f = c) ?rel) = frame_count frames ?ch c" for c
    by (simp add: frame_count_def filter_range_cluster)
  show "if \<forall>c \<ge> 0. frame_count frames ?ch c = 0
       then speaker ?s = ''Unknown''
       else \<exists>d \<ge> 0. speaker ?s = [char_of (65 + d mod 26)] \<and>
              0 < frame_count frames ?ch d \<and>
              (\<forall>c \<ge> 0. frame_count frames ?ch c \<le> frame_count frames ?ch d) \<and>
              (\<forall>c \<ge> 0. frame_count frames ?ch c = frame_count frames ?ch d \<longrightarrow> d \<le> c)"
  proof (cases "\<forall>c \<ge> 0. frame_count frames ?ch c = 0")
    case True
    have "\<forall>f \<in> set ?rel. cluster f < 0"
    proof (rule ballI, rule ccontr)
      fix f assume f: "f \<in> set ?rel" and "\<not> cluster f < 0"
      then have "0 \<le> cluster f" by simp
      then have "length (filter (\<lambda>g. cluster g = cluster f) ?rel) = 0"
        using True cnt by simp
      then show False using f by (auto simp: filter_empty_conv)
    qed
    then have "dominant_cluster ?rel = - 1" by (rule dominant_cluster_silent)
    then show ?thesis using True by (simp add: s speaker_label_def)
  next
    case False
    then obtain c where c: "0 \<le> c" "frame_count frames ?ch c \<noteq> 0" by blast
    then have "filter (\<lambda>f. cluster f = c) ?rel \<noteq> []" using cnt [of c] by auto
    then have "\<exists>f \<in> set ?rel. 0 \<le> cluster f"
      using c(1) by (metis (mono_tags, lifting) filter_False)
    from dominant_cluster_spec [OF this]
    have "0 \<le> dominant_cluster ?rel \<and> 0 < frame_count frames ?ch (dominant_cluster ?rel) \<and>
         (\<forall>c \<ge> 0. frame_count frames ?ch c \<le> frame_count frames ?ch (dominant_cluster ?rel)) \<and>
         (\<forall>c \<ge> 0. frame_count frames ?ch c = frame_count frames ?ch (dominant_cluster ?rel)
              \<longrightarrow> dominant_cluster ?rel \<le> c)"
      unfolding cnt .
    moreover have "0 \<le> dominant_cluster ?rel \<Longrightarrow>
        speaker ?s = [char_of (65 + dominant_cluster ?rel mod 26)]"
      by (simp add: s speaker_label_def)
    ultimately have "\<exists>d \<ge> 0. speaker ?s = [char_of (65 + d mod 26)] \<and>
              0 < frame_count frames ?ch d \<and>
              (\<forall>c \<ge> 0. frame_count frames ?ch c \<le> frame_count frames ?ch d) \<and>
              (\<forall>c \<ge> 0. frame_count frames ?ch c = frame_count frames ?ch d \<longrightarrow> d \<le> c)"
      by (intro exI [of _ "dominant_cluster ?rel"]) blast
    then show ?thesis using False by (simp only: if_False)
  qed
qed


theorem assignSpeakersToSegments_dominant_witness:
  "assignSpeakersToSegments tie_frames [] [tie_chunk] =
     [\<lparr>seg_text = ''hi'', seg_start = 0, seg_end = 1, speaker = ''B''\<rparr>] \<and>
   frame_count tie_frames tie_chunk 1 = 2 \<and>
   frame_count tie_frames tie_chunk 2 = 2 \<and>
   (\<exists>d \<ge> 0.
      speaker (assignSpeakersToSegments tie_frames [] [tie_chunk] ! 0) =
        [char_of (65 + d mod 26)] \<and>
      0 < frame_count tie_frames tie_chunk d \<and>
      (\<forall>c \<ge> 0. frame_count tie_frames tie_chunk c \<le> frame_count tie_frames tie_chunk d) \<and>
      (\<forall>c \<ge> 0. frame_count tie_frames tie_chunk c = frame_count tie_frames tie_chunk d
           \<longrightarrow> d \<le> c))"
proof -
  have run: "assignSpeakersToSegments tie_frames [] [tie_chunk] =
     [\<lparr>seg_text = ''hi'', seg_start = 0, seg_end = 1, speaker = ''B''\<rparr>]"
    by (simp add: assignSpeakersToSegments_def tie_frames_def tie_chunk_def labeled_def
          dominant_cluster_def tally_def scan_def count_cluster_def Object_entries_def
          speaker_label_def char_of_def)
  have c1: "frame_count tie_frames tie_chunk 1 = 2"
    and c2: "frame_count tie_frames tie_chunk 2 = 2"
    by (simp_all add: frame_count_def tie_frames_def tie_chunk_def labeled_def)
  have some: "\<not> (\<forall>c \<ge> 0. frame_count tie_frames tie_chunk c = 0)"
    using c1 by (auto intro!: exI [of _ 1])
  have "0 < length [tie_chunk]" by simp
  from assignSpeakersToSegments_dominant [of tie_frames "[]" "[tie_chunk]",
         THEN conjunct2, rule_format, OF this]
  have "if \<forall>c \<ge> 0. frame_count tie_frames ([tie_chunk] ! 0) c = 0
       then speaker (assignSpeakersToSegments tie_frames [] [tie_chunk] ! 0) = ''Unknown''
       else \<exists>d \<ge> 0.
              speaker (assignSpeakersToSegments tie_frames [] [tie_chunk] ! 0) =
                [char_of (65 + d mod 26)] \<and>
              0 < frame_count tie_frames ([tie_chunk] ! 0) d \<and>
              (\<forall>c \<ge> 0. frame_count tie_frames ([tie_chunk] ! 0) c \<le>
                        frame_count tie_frames ([tie_chunk] ! 0) d) \<and>
              (\<forall>c \<ge> 0. frame_count tie_frames ([tie_chunk] ! 0) c =
                        frame_count tie_frames ([tie_chunk] ! 0) d \<longrightarrow> d \<le> c)"
    by blast
  then have "\<exists>d \<ge> 0.
              speaker (assignSpeakersToSegments tie_frames [] [tie_chunk] ! 0) =
                [char_of (65 + d mod 26)] \<and>
              0 < frame_count tie_frames tie_chunk d \<and>
              (\<forall>c \<ge> 0. frame_count tie_frames tie_chunk c \<le>
                        frame_count tie_frames tie_chunk d) \<and>
              (\<forall>c \<ge> 0. frame_count tie_frames tie_chunk c =
                        frame_count tie_frames tie_chunk d \<longrightarrow> d \<le> c)"
    unfolding nth_Cons_0 using some by (simp only: if_False)
  then show ?thesis using run c1 c2 by blast
qed


section \<open>Lemmas on the clustering\<close>

lemma closest_fold_mem:
  "snd (foldl (\<lambda>(minDistance, closest) j.
                   case euclideanDistance vec (cs ! j) of
                     NaN \<Rightarrow> (minDistance, closest)
                   | Num distance \<Rightarrow>
                       if (case minDistance of None \<Rightarrow> True | Some m \<Rightarrow> distance < m)
                       then (Some distance, j)
                       else (minDistance, closest))
                (md, c) js) \<in> insert c (set js)"
proof (induction js arbitrary: md c)
  case Nil
  show ?case by simp
next
  case (Cons j js)
  show ?case
  proof (cases "euclideanDistance vec (cs ! j)")
    case NaN
    then show ?thesis using Cons.IH [of md c] by auto
  next
    case (Num distance)
    show ?thesis
    proof (cases "case md of None \<Rightarrow> True | Some m \<Rightarrow> distance < m")
      case True
      then show ?thesis using Num Cons.IH [of "Some distance" j] by auto
    next
      case False
      then show ?thesis using Num Cons.IH [of md c] by auto
    qed
  qed
qed

lemma closestCentroid_less: "0 < k \<Longrightarrow> closestCentroid vec cs k < k"
  using closest_fold_mem [of vec cs None 0 "[0..<k]"]
  by (auto simp: closestCentroid_def)

lemma assign_fold:
  assumes "length as = length vectors" and "m \<le> length vectors"
  shows "fst (foldl (assign_step vectors cs k) (as, ch) [0..<m]) =
           map (\<lambda>i. int (closestCentroid (vectors ! i) cs k)) [0..<m] @ drop m as"
  using assms(2)
proof (induction m)
  case 0
  show ?case by simp
next
  case (Suc m)
  let ?st = "foldl (assign_step vectors cs k) (as, ch) [0..<m]"
  let ?c = "int (closestCentroid (vectors ! m) cs k)"
  have IH: "fst ?st = map (\<lambda>i. int (closestCentroid (vectors ! i) cs k)) [0..<m] @ drop m as"
    using Suc by simp
  have m: "m < length as" using Suc.prems assms(1) by simp
  have step: "fst (assign_step vectors cs k ?st m) = (fst ?st)[m := ?c]"
  proof (cases ?st)
    case (Pair a b)
    show ?thesis
    proof (cases "a ! m = ?c")
      case True
      then have "a[m := ?c] = a" using list_update_id [of a m] by simp
      then show ?thesis using True Pair by (simp add: assign_step_def Let_def)
    next
      case False
      then show ?thesis using Pair by (simp add: assign_step_def Let_def)
    qed
  qed
  have "(fst ?st)[m := ?c] =
          map (\<lambda>i. int (closestCentroid (vectors ! i) cs k)) [0..<m] @ (drop m as)[0 := ?c]"
    unfolding IH by (simp add: list_update_append)
  also have "(drop m as)[0 := ?c] = ?c # drop (Suc m) as"
    using m by (simp add: Cons_nth_drop_Suc [symmetric])
  finally show ?case using step by simp
qed

lemma assign_all:
  assumes "length as = length vectors"
  shows "fst (foldl (assign_step vectors cs k) (as, ch) [0..<length vectors]) =
           map (\<lambda>i. int (closestCentroid (vectors ! i) cs k)) [0..<length vectors]"
  using assign_fold [OF assms, of "length vectors" cs k ch] assms by simp

lemma accumulate_fold:
  assumes "\<forall>i \<in> set js. 0 \<le> as ! i \<and> nat (as ! i) < length nc"
  shows "\<exists>nc' counts'.
           foldl (accumulate_step vectors as) (Inr (nc, counts)) js = Inr (nc', counts') \<and>
           length nc' = length nc"
  using assms
proof (induction js arbitrary: nc counts)
  case Nil
  show ?case by simp
next
  case (Cons j js)
  let ?nc = "nc[nat (as ! j) := add_into (nc ! nat (as ! j)) (vectors ! j)]"
  let ?counts = "counts[nat (as ! j) := counts ! nat (as ! j) + 1]"
  have step: "accumulate_step vectors as (Inr (nc, counts)) j = Inr (?nc, ?counts)"
    using Cons.prems by (simp add: accumulate_step_def Let_def)
  have "\<forall>i \<in> set js. 0 \<le> as ! i \<and> nat (as ! i) < length ?nc"
    using Cons.prems by simp
  from Cons.IH [OF this, of ?counts] show ?case using step by simp
qed

lemma recompute_length: "length (recompute cs nc counts k) = length cs"
proof -
  have "length (foldl (\<lambda>cs i.
              if counts ! i > 0
              then cs[i := map (\<lambda>x. js_div x (counts ! i)) (nc ! i)]
              else cs) cs js) = length cs" for js
    by (induction js arbitrary: cs) simp_all
  then show ?thesis by (simp add: recompute_def)
qed

lemma kMeans_loop_total:
  assumes "0 < k" and "length as = length vectors" and "length cs = k"
    and "iterations \<le> maxIterations"
    and "(changed \<and> iterations < maxIterations) \<or> (\<forall>a \<in> set as. 0 \<le> a \<and> a < int k)"
  shows "\<exists>cs' as' iterations' changed'.
           kMeans_loop vectors k maxIterations cs as iterations changed =
             Inr (cs', as', iterations', changed') \<and>
           length cs' = k \<and> length as' = length vectors \<and>
           (\<forall>a \<in> set as'. 0 \<le> a \<and> a < int k) \<and>
           iterations \<le> iterations' \<and> iterations' \<le> maxIterations \<and>
           (changed \<and> iterations < maxIterations \<longrightarrow> iterations < iterations') \<and>
           (changed' \<longrightarrow> iterations' = maxIterations)"
  using assms(2-)
proof (induction "maxIterations - iterations" arbitrary: cs as iterations changed)
  case 0
  then have stop: "\<not> (changed \<and> iterations < maxIterations)" by simp
  then have "kMeans_loop vectors k maxIterations cs as iterations changed =
               Inr (cs, as, iterations, changed)"
    by (subst kMeans_loop.simps) (simp only: if_False)
  then show ?case using 0 stop by auto
next
  case (Suc n)
  show ?case
  proof (cases "changed \<and> iterations < maxIterations")
    case False
    then have "kMeans_loop vectors k maxIterations cs as iterations changed =
               Inr (cs, as, iterations, changed)"
      by (subst kMeans_loop.simps) (simp only: if_False)
    then show ?thesis using Suc.prems False by auto
  next
    case True
    obtain as' changed' where st: "foldl (assign_step vectors cs k) (as, False)
                [0..<length vectors] = (as', changed')"
      by (cases "foldl (assign_step vectors cs k) (as, False) [0..<length vectors]")
    have as': "as' = map (\<lambda>i. int (closestCentroid (vectors ! i) cs k)) [0..<length vectors]"
      using assign_all [OF Suc.prems(1), of cs k False] st by simp
    then have len: "length as' = length vectors" by simp
    have range: "\<forall>a \<in> set as'. 0 \<le> a \<and> a < int k"
      using closestCentroid_less [OF assms(1)] by (auto simp: as')
    have "\<forall>i \<in> set [0..<length vectors]. 0 \<le> as' ! i \<and>
            nat (as' ! i) < length (replicate k (replicate (length (vectors ! 0)) (Num 0)))"
      using range len by (auto simp: all_set_conv_all_nth)
    from accumulate_fold [OF this, of vectors "replicate k 0"]
    obtain nc counts where acc:
      "foldl (accumulate_step vectors as')
         (Inr (replicate k (replicate (length (vectors ! 0)) (Num 0)), replicate k 0))
         [0..<length vectors] = Inr (nc, counts)"
      by blast
    have unfold: "kMeans_loop vectors k maxIterations cs as iterations changed =
        kMeans_loop vectors k maxIterations (recompute cs nc counts k) as' (Suc iterations) changed'"
      by (subst kMeans_loop.simps) (simp add: True st acc)
    have "n = maxIterations - Suc iterations" using Suc.hyps(2) by simp
    from Suc.hyps(1) [OF this len, of "recompute cs nc counts k" changed']
    obtain cs'' as'' iterations'' changed'' where
      "kMeans_loop vectors k maxIterations (recompute cs nc counts k) as' (Suc iterations) changed' =
         Inr (cs'', as'', iterations'', changed'') \<and>
       length cs'' = k \<and> length as'' = length vectors \<and>
       (\<forall>a \<in> set as''. 0 \<le> a \<and> a < int k) \<and>
       Suc iterations \<le> iterations'' \<and> iterations'' \<le> maxIterations \<and>
       (changed'' \<longrightarrow> iterations'' = maxIterations)"
      using True range Suc.prems(2) by (auto simp: recompute_length)
    then show ?thesis unfolding unfold using True by auto
  qed
qed


lemma initial_centroid_ok:
  assumes "vectors \<noteq> []" and "0 \<le> r" and "r < 1"
  shows "\<exists>c. initial_centroid vectors r = Inr c"
proof -
  have n: "0 < real (length vectors)" using assms(1) by simp
  have "0 \<le> r * real (length vectors)" using assms(2) by simp
  then have lo: "0 \<le> \<lfloor>r * real (length vectors)\<rfloor>" by simp
  have "r * real (length vectors) < 1 * real (length vectors)"
    using assms(3) n by (rule mult_strict_right_mono)
  then have "r * real (length vectors) < of_int (int (length vectors))" by simp
  then have hi: "\<lfloor>r * real (length vectors)\<rfloor> < int (length vectors)"
    by (simp only: floor_less_iff)
  show ?thesis using lo hi by (simp add: initial_centroid_def Let_def)
qed

lemma collect_length: "collect xs = Inr ys \<Longrightarrow> length ys = length xs"
proof (induction xs arbitrary: ys rule: collect.induct)
  case 1
  then show ?case by simp
next
  case (2 err xs)
  then show ?case by simp
next
  case (3 x xs)
  then show ?case by (auto split: sum.splits)
qed

lemma collect_total:
  "\<forall>x \<in> set xs. \<exists>y. x = Inr y \<Longrightarrow> \<exists>ys. collect xs = Inr ys"
proof (induction xs)
  case Nil
  show ?case by simp
next
  case (Cons x xs)
  then obtain y ys where "x = Inr y" "collect xs = Inr ys" by auto
  then show ?case by simp
qed

lemma kMeans_run_shape:
  assumes "kMeans_run rnd vectors k maxIterations = Inr (cs, as, iterations, changed)"
    and "0 < k"
  shows "length cs = nat k \<and> length as = length vectors \<and>
         (0 < maxIterations \<longrightarrow> (\<forall>a \<in> set as. 0 \<le> a \<and> a < k))"
proof -
  obtain cs0 where c0: "collect (map (\<lambda>j. initial_centroid vectors (rnd j)) [0..<nat k]) = Inr cs0"
    and loop: "kMeans_loop vectors (nat k) maxIterations cs0
                 (replicate (length vectors) (- 1)) 0 True = Inr (cs, as, iterations, changed)"
    using assms by (auto simp: kMeans_run_def split: sum.splits if_splits)
  have len0: "length cs0 = nat k" using collect_length [OF c0] by simp
  show ?thesis
  proof (cases "0 < maxIterations")
    case True
    from kMeans_loop_total [of "nat k" "replicate (length vectors) (- 1)" vectors cs0 0
           maxIterations True]
    show ?thesis using assms(2) len0 True loop by auto
  next
    case False
    then have "kMeans_loop vectors (nat k) maxIterations cs0
                 (replicate (length vectors) (- 1)) 0 True =
               Inr (cs0, replicate (length vectors) (- 1), 0, True)"
      by (subst kMeans_loop.simps) simp
    then show ?thesis using loop len0 False by simp
  qed
qed

lemma assign_flag_fold:
  assumes "length as = length vectors" and "m \<le> length vectors"
  shows "snd (foldl (assign_step vectors cs k) (as, ch) [0..<m]) \<longleftrightarrow>
           ch \<or> (\<exists>i < m. as ! i \<noteq> int (closestCentroid (vectors ! i) cs k))"
  using assms(2)
proof (induction m)
  case 0
  show ?case by simp
next
  case (Suc m)
  let ?st = "foldl (assign_step vectors cs k) (as, ch) [0..<m]"
  let ?c = "int (closestCentroid (vectors ! m) cs k)"
  have m: "m < length as" "m \<le> length vectors" using Suc.prems assms(1) by simp_all
  have "fst ?st = map (\<lambda>i. int (closestCentroid (vectors ! i) cs k)) [0..<m] @ drop m as"
    using assign_fold [OF assms(1) m(2)] by simp
  then have at: "fst ?st ! m = as ! m"
    using m(1) by (simp add: nth_append)
  have "snd (assign_step vectors cs k ?st m) \<longleftrightarrow> snd ?st \<or> as ! m \<noteq> ?c"
    using at by (cases ?st) (auto simp: assign_step_def Let_def)
  then show ?case using Suc.IH m(2) by (auto simp: less_Suc_eq)
qed

lemma assign_flag:
  assumes "length as = length vectors"
  shows "snd (foldl (assign_step vectors cs k) (as, False) [0..<length vectors]) \<longleftrightarrow>
           fst (foldl (assign_step vectors cs k) (as, False) [0..<length vectors]) \<noteq> as"
proof -
  let ?c = "\<lambda>i. int (closestCentroid (vectors ! i) cs k)"
  have flag: "snd (foldl (assign_step vectors cs k) (as, False) [0..<length vectors]) \<longleftrightarrow>
                (\<exists>i < length vectors. as ! i \<noteq> ?c i)"
    using assign_flag_fold [OF assms, of "length vectors" cs k False] by simp
  have new: "fst (foldl (assign_step vectors cs k) (as, False) [0..<length vectors]) =
               map ?c [0..<length vectors]"
    by (rule assign_all [OF assms])
  have "map ?c [0..<length vectors] = as \<longleftrightarrow>
          length (map ?c [0..<length vectors]) = length as \<and>
          (\<forall>i < length (map ?c [0..<length vectors]). map ?c [0..<length vectors] ! i = as ! i)"
    by (rule list_eq_iff_nth_eq)
  then have "map ?c [0..<length vectors] = as \<longleftrightarrow> (\<forall>i < length vectors. ?c i = as ! i)"
    using assms by simp
  then have "map ?c [0..<length vectors] \<noteq> as \<longleftrightarrow> (\<exists>i < length vectors. as ! i \<noteq> ?c i)"
    by (metis (no_types, lifting))
  then show ?thesis unfolding flag new by simp
qed

lemma indexOf_range: "- 1 \<le> indexOf ds m \<and> indexOf ds m < int (length ds)"
  by (induction ds) (auto simp: Let_def)

lemma clusterFeatureVectors_range:
  assumes "clusterFeatureVectors rnd fvs k = Inr clusters" and "1 \<le> k"
  shows "\<forall>f \<in> set clusters. - 1 \<le> cluster f \<and> cluster f < k"
proof (cases "filter (\<lambda>v. case js_nth (vector v) 1 of None \<Rightarrow> False | Some x \<Rightarrow> x > 1 / 10) fvs = []")
  case True
  then have "clusters = []" using assms(1) by (simp add: clusterFeatureVectors_def)
  then show ?thesis by simp
next
  case False
  let ?active = "filter (\<lambda>v. case js_nth (vector v) 1 of None \<Rightarrow> False | Some x \<Rightarrow> x > 1 / 10) fvs"
  let ?k = "min k (int (length ?active))"
  have k: "0 < ?k" using False assms(2) by (simp add: min_def)
  obtain km where km: "kMeansClustering rnd (map vector ?active) ?k 100 = Inr km"
    and cl: "clusters = map (\<lambda>v.
                   if (case js_nth (vector v) 1 of None \<Rightarrow> False | Some x \<Rightarrow> x \<le> 1 / 10)
                   then \<lparr>time = time v, vector = vector v, cluster = - 1\<rparr>
                   else
                     let distances = map (\<lambda>centroid. euclideanDistance (vector v) centroid)
                                       (centroids km);
                         minIndex = indexOf distances (Math_min distances)
                     in \<lparr>time = time v, vector = vector v, cluster = minIndex\<rparr>) fvs"
    using assms(1) False
    by (cases "kMeansClustering rnd (map vector ?active) ?k 100")
       (simp_all add: clusterFeatureVectors_def Let_def)
  obtain cs as iterations changed where
    run: "kMeans_run rnd (map vector ?active) ?k 100 = Inr (cs, as, iterations, changed)"
    and cs: "centroids km = cs"
    using km False
    by (cases "kMeans_run rnd (map vector ?active) ?k 100")
       (auto simp: kMeansClustering_def split: if_splits)
  have "length (centroids km) = nat ?k" using kMeans_run_shape [OF run k] cs by simp
  then have len: "int (length (centroids km)) \<le> k" using k by simp
  define lab where "lab = (\<lambda>v :: feature_vector.
        if (case js_nth (vector v) 1 of None \<Rightarrow> False | Some x \<Rightarrow> x \<le> 1 / 10)
        then \<lparr>time = time v, vector = vector v, cluster = - 1\<rparr>
        else
          let distances = map (\<lambda>centroid. euclideanDistance (vector v) centroid)
                            (centroids km);
              minIndex = indexOf distances (Math_min distances)
          in \<lparr>time = time v, vector = vector v, cluster = minIndex\<rparr>)"
  have cl': "clusters = map lab fvs" unfolding cl lab_def by (rule refl)
  have lab: "- 1 \<le> cluster (lab v) \<and> cluster (lab v) < k" for v
  proof (cases "case js_nth (vector v) 1 of None \<Rightarrow> False | Some x \<Rightarrow> x \<le> 1 / 10")
    case True
    then show ?thesis using assms(2) by (simp add: lab_def)
  next
    case False
    let ?ds = "map (\<lambda>centroid. euclideanDistance (vector v) centroid) (centroids km)"
    have "cluster (lab v) = indexOf ?ds (Math_min ?ds)"
      using False by (simp add: lab_def Let_def)
    then show ?thesis using indexOf_range [of ?ds "Math_min ?ds"] len by simp
  qed
  show ?thesis unfolding cl' using lab by auto
qed

lemma map_nth_upt: "map (\<lambda>i. f (xs ! i)) [0..<length xs] = map f xs"
proof -
  have "map (\<lambda>i. f (xs ! i)) [0..<length xs] = map f (map (\<lambda>i. xs ! i) [0..<length xs])"
    by (simp add: comp_def)
  then show ?thesis by (simp add: map_nth)
qed

lemma kMeans_round_assignments:
  assumes "length as = length vectors" and "kMeans_round vectors k (cs, as) = Inr (cs', as')"
  shows "as' = map (\<lambda>v. int (closestCentroid v cs k)) vectors"
proof -
  obtain as1 ch1 where st: "foldl (assign_step vectors cs k) (as, False) [0..<length vectors] =
      (as1, ch1)"
    by (cases "foldl (assign_step vectors cs k) (as, False) [0..<length vectors]")
  have "as' = as1"
    using assms(2) by (auto simp: kMeans_round_def st split: sum.splits)
  moreover have "as1 = map (\<lambda>i. int (closestCentroid (vectors ! i) cs k)) [0..<length vectors]"
    using assign_all [OF assms(1), of cs k False] st by simp
  ultimately show ?thesis
    using map_nth_upt [of "\<lambda>v. int (closestCentroid v cs k)" vectors] by simp
qed

lemma kMeans_loop_step:
  assumes "changed \<and> iterations < maxIterations"
    and "foldl (assign_step vectors cs k) (as, False) [0..<length vectors] = (as1, ch1)"
  shows "(\<exists>err. kMeans_round vectors k (cs, as) = Inl err \<and>
            kMeans_loop vectors k maxIterations cs as iterations changed = Inl err) \<or>
         (\<exists>cs1. kMeans_round vectors k (cs, as) = Inr (cs1, as1) \<and>
            kMeans_loop vectors k maxIterations cs as iterations changed =
              kMeans_loop vectors k maxIterations cs1 as1 (Suc iterations) ch1)"
proof (cases "foldl (accumulate_step vectors as1)
                     (Inr (replicate k (replicate (length (vectors ! 0)) (Num 0)),
                           replicate k 0))
                     [0..<length vectors]")
  case (Inl err)
  have "kMeans_round vectors k (cs, as) = Inl err"
    by (simp add: kMeans_round_def assms(2) Inl)
  moreover have "kMeans_loop vectors k maxIterations cs as iterations changed = Inl err"
    by (subst kMeans_loop.simps) (simp add: assms Inl)
  ultimately show ?thesis by blast
next
  case (Inr p)
  obtain nc counts where p: "p = (nc, counts)" by (cases p)
  have "kMeans_round vectors k (cs, as) = Inr (recompute cs nc counts k, as1)"
    by (simp add: kMeans_round_def assms(2) Inr p)
  moreover have "kMeans_loop vectors k maxIterations cs as iterations changed =
      kMeans_loop vectors k maxIterations (recompute cs nc counts k) as1 (Suc iterations) ch1"
    by (subst kMeans_loop.simps) (simp add: assms Inr p)
  ultimately show ?thesis by blast
qed

lemma kMeans_loop_history:
  assumes "length as = length vectors"
    and "kMeans_rounds vectors k iterations init = Inr (cs, as)"
    and "iterations = 0 \<and> changed \<or>
         0 < iterations \<and>
         (\<exists>pc pa. kMeans_rounds vectors k (iterations - 1) init = Inr (pc, pa) \<and>
                  (changed \<longleftrightarrow> as \<noteq> pa))"
    and "\<forall>m. Suc m < iterations \<longrightarrow>
           (\<exists>c a c' a'. kMeans_rounds vectors k m init = Inr (c, a) \<and>
                        kMeans_rounds vectors k (Suc m) init = Inr (c', a') \<and> a' \<noteq> a)"
    and "kMeans_loop vectors k maxIterations cs as iterations changed =
           Inr (cs', as', iterations', changed')"
  shows "kMeans_rounds vectors k iterations' init = Inr (cs', as') \<and>
         (iterations' = 0 \<and> changed' \<or>
          0 < iterations' \<and>
          (\<exists>pc pa. kMeans_rounds vectors k (iterations' - 1) init = Inr (pc, pa) \<and>
                   (changed' \<longleftrightarrow> as' \<noteq> pa))) \<and>
         (\<forall>m. Suc m < iterations' \<longrightarrow>
           (\<exists>c a c' a'. kMeans_rounds vectors k m init = Inr (c, a) \<and>
                        kMeans_rounds vectors k (Suc m) init = Inr (c', a') \<and> a' \<noteq> a))"
  using assms
proof (induction "maxIterations - iterations" arbitrary: cs as iterations changed)
  case 0
  then have "\<not> (changed \<and> iterations < maxIterations)" by simp
  then have "kMeans_loop vectors k maxIterations cs as iterations changed =
               Inr (cs, as, iterations, changed)"
    by (subst kMeans_loop.simps) (simp only: if_False)
  then have "cs' = cs" "as' = as" "iterations' = iterations" "changed' = changed"
    using "0.prems"(5) by simp_all
  then show ?case using "0.prems"(2,3,4) by simp
next
  case (Suc n)
  show ?case
  proof (cases "changed \<and> iterations < maxIterations")
    case False
    then have "kMeans_loop vectors k maxIterations cs as iterations changed =
               Inr (cs, as, iterations, changed)"
      by (subst kMeans_loop.simps) (simp only: if_False)
    then have "cs' = cs" "as' = as" "iterations' = iterations" "changed' = changed"
      using Suc.prems(5) by simp_all
    then show ?thesis using Suc.prems(2,3,4) by simp
  next
    case True
    obtain as1 ch1 where st: "foldl (assign_step vectors cs k) (as, False)
                [0..<length vectors] = (as1, ch1)"
      by (cases "foldl (assign_step vectors cs k) (as, False) [0..<length vectors]")
    from kMeans_loop_step [OF True st] Suc.prems(5)
    obtain cs1 where round: "kMeans_round vectors k (cs, as) = Inr (cs1, as1)"
      and loop: "kMeans_loop vectors k maxIterations cs1 as1 (Suc iterations) ch1 =
                   Inr (cs', as', iterations', changed')"
      by auto
    have len1: "length as1 = length vectors"
      using kMeans_round_assignments [OF Suc.prems(1) round] by simp
    have next_state: "kMeans_rounds vectors k (Suc iterations) init = Inr (cs1, as1)"
      using Suc.prems(2) round by simp
    have flag1: "ch1 \<longleftrightarrow> as1 \<noteq> as"
      using assign_flag [OF Suc.prems(1), of cs k] st by simp
    have flag: "Suc iterations = 0 \<and> ch1 \<or>
         0 < Suc iterations \<and>
         (\<exists>pc pa. kMeans_rounds vectors k (Suc iterations - 1) init = Inr (pc, pa) \<and>
                  (ch1 \<longleftrightarrow> as1 \<noteq> pa))"
      using Suc.prems(2) flag1 by simp
    have hist: "\<forall>m. Suc m < Suc iterations \<longrightarrow>
           (\<exists>c a c' a'. kMeans_rounds vectors k m init = Inr (c, a) \<and>
                        kMeans_rounds vectors k (Suc m) init = Inr (c', a') \<and> a' \<noteq> a)"
    proof (intro allI impI)
      fix m assume m: "Suc m < Suc iterations"
      show "\<exists>c a c' a'. kMeans_rounds vectors k m init = Inr (c, a) \<and>
                        kMeans_rounds vectors k (Suc m) init = Inr (c', a') \<and> a' \<noteq> a"
      proof (cases "Suc m < iterations")
        case True
        then show ?thesis using Suc.prems(4) by blast
      next
        case False
        then have eq: "iterations = Suc m" using m by simp
        then obtain pc pa where
          "kMeans_rounds vectors k m init = Inr (pc, pa)" "changed \<longleftrightarrow> as \<noteq> pa"
          using Suc.prems(3) by auto
        then show ?thesis using True Suc.prems(2) eq by blast
      qed
    qed
    have "n = maxIterations - Suc iterations" using Suc.hyps(2) by simp
    from Suc.hyps(1) [OF this len1 next_state flag hist loop] show ?thesis .
  qed
qed

lemma kMeans_rounds_length:
  assumes "length as0 = length vectors"
    and "kMeans_rounds vectors k m (cs0, as0) = Inr (c, a)"
  shows "length a = length vectors"
  using assms(2)
proof (induction m arbitrary: c a)
  case 0
  then show ?case using assms(1) by simp
next
  case (Suc m)
  then obtain c1 a1 where prev: "kMeans_rounds vectors k m (cs0, as0) = Inr (c1, a1)"
    and round: "kMeans_round vectors k (c1, a1) = Inr (c, a)"
    by (auto split: sum.splits)
  have "length a1 = length vectors" using Suc.IH [OF prev] .
  from kMeans_round_assignments [OF this round] show ?case by simp
qed

section \<open>Claims on the clustering\<close>

text \<open>
  Claim C8. For a non-empty list of vectors, a number of clusters \<open>k\<close> of at least 1 and
  a random source with values in \<open>[0, 1)\<close>, \<open>kMeansClustering\<close> with the cap of 100 rounds
  returns, after at least one and at most 100 rounds of the loop. The state returned is
  the state after that many rounds from the initial centroids and the assignments
  \<open>- 1\<close>. Every round before the last changed the assignment of some vector; the flag
  \<open>changed\<close> returned is on exactly when the last round did so too, and then the last round
  is the 100th: the loop stops in the first round that changes no assignment, or at the
  cap. On return there is one assignment for each vector, an integer from 0 up to but not
  including \<open>k\<close>: the index that \<open>closestCentroid\<close> gives for the vector and the centroids
  at the start of the last round.
\<close>

theorem kMeansClustering_terminates:
  assumes "vectors \<noteq> []" and "1 \<le> k" and "\<forall>j. 0 \<le> rnd j \<and> rnd j < 1"
  shows "\<exists>cs0 cs as iterations changed prev_cs prev_as.
           collect (map (\<lambda>j. initial_centroid vectors (rnd j)) [0..<nat k]) = Inr cs0 \<and>
           kMeans_run rnd vectors k 100 = Inr (cs, as, iterations, changed) \<and>
           kMeansClustering rnd vectors k 100 = Inr \<lparr>centroids = cs, assignments = as\<rparr> \<and>
           1 \<le> iterations \<and> iterations \<le> 100 \<and> (changed \<longrightarrow> iterations = 100) \<and>
           length as = length vectors \<and> (\<forall>a \<in> set as. 0 \<le> a \<and> a < k) \<and>
           kMeans_rounds vectors (nat k) (iterations - 1)
               (cs0, replicate (length vectors) (- 1)) = Inr (prev_cs, prev_as) \<and>
           kMeans_round vectors (nat k) (prev_cs, prev_as) = Inr (cs, as) \<and>
           as = map (\<lambda>v. int (closestCentroid v prev_cs (nat k))) vectors \<and>
           (changed \<longleftrightarrow> as \<noteq> prev_as) \<and>
           (\<forall>m. Suc m < iterations \<longrightarrow>
              (\<exists>c a c' a'.
                 kMeans_rounds vectors (nat k) m (cs0, replicate (length vectors) (- 1)) =
                   Inr (c, a) \<and>
                 kMeans_rounds vectors (nat k) (Suc m) (cs0, replicate (length vectors) (- 1)) =
                   Inr (c', a') \<and>
                 a' \<noteq> a))"
proof -
  let ?init = "\<lambda>cs0. (cs0 :: jsnum list list, replicate (length vectors) (- 1 :: int))"
  have "\<forall>x \<in> set (map (\<lambda>j. initial_centroid vectors (rnd j)) [0..<nat k]). \<exists>y. x = Inr y"
    using initial_centroid_ok [OF assms(1)] assms(3) by auto
  then obtain cs0 where
    c0: "collect (map (\<lambda>j. initial_centroid vectors (rnd j)) [0..<nat k]) = Inr cs0"
    using collect_total by blast
  have len0: "length cs0 = nat k" using collect_length [OF c0] by simp
  have run: "kMeans_run rnd vectors k 100 =
               kMeans_loop vectors (nat k) 100 cs0 (replicate (length vectors) (- 1)) 0 True"
    using assms(2) c0 by (simp add: kMeans_run_def)
  from kMeans_loop_total [of "nat k" "replicate (length vectors) (- 1)" vectors cs0 0 100 True]
  obtain cs as iterations changed where
    loop: "kMeans_loop vectors (nat k) 100 cs0 (replicate (length vectors) (- 1)) 0 True =
       Inr (cs, as, iterations, changed)"
    and len: "length as = length vectors"
    and range: "\<forall>a \<in> set as. 0 \<le> a \<and> a < int (nat k)"
    and rounds: "0 < iterations" "iterations \<le> 100" "changed \<longrightarrow> iterations = 100"
    using assms(2) len0 by auto
  have start: "kMeans_rounds vectors (nat k) 0 (?init cs0) = Inr (cs0, replicate (length vectors) (- 1))"
    by simp
  have flag0: "(0::nat) = 0 \<and> True \<or>
         0 < (0::nat) \<and>
         (\<exists>pc pa. kMeans_rounds vectors (nat k) (0 - 1) (?init cs0) = Inr (pc, pa) \<and>
                  (True \<longleftrightarrow> replicate (length vectors) (- 1) \<noteq> pa))"
    by simp
  have hist0: "\<forall>m. Suc m < 0 \<longrightarrow>
           (\<exists>c a c' a'. kMeans_rounds vectors (nat k) m (?init cs0) = Inr (c, a) \<and>
                        kMeans_rounds vectors (nat k) (Suc m) (?init cs0) = Inr (c', a') \<and> a' \<noteq> a)"
    by simp
  have len_init: "length (replicate (length vectors) (- 1 :: int)) = length vectors" by simp
  from kMeans_loop_history [OF len_init start flag0 hist0 loop]
  have final: "kMeans_rounds vectors (nat k) iterations (?init cs0) = Inr (cs, as)"
    and flag: "iterations = 0 \<and> changed \<or>
          0 < iterations \<and>
          (\<exists>pc pa. kMeans_rounds vectors (nat k) (iterations - 1) (?init cs0) = Inr (pc, pa) \<and>
                   (changed \<longleftrightarrow> as \<noteq> pa))"
    and hist: "\<forall>m. Suc m < iterations \<longrightarrow>
           (\<exists>c a c' a'. kMeans_rounds vectors (nat k) m (?init cs0) = Inr (c, a) \<and>
                        kMeans_rounds vectors (nat k) (Suc m) (?init cs0) = Inr (c', a') \<and> a' \<noteq> a)"
    by blast+
  from flag rounds(1) obtain prev_cs prev_as where
    prev: "kMeans_rounds vectors (nat k) (iterations - 1) (?init cs0) = Inr (prev_cs, prev_as)"
    and moved: "changed \<longleftrightarrow> as \<noteq> prev_as"
    by auto
  have "kMeans_rounds vectors (nat k) (Suc (iterations - 1)) (?init cs0) = Inr (cs, as)"
    using final rounds(1) by simp
  then have last: "kMeans_round vectors (nat k) (prev_cs, prev_as) = Inr (cs, as)"
    using prev by simp
  have "length prev_as = length vectors"
    using kMeans_rounds_length [OF len_init prev] .
  from kMeans_round_assignments [OF this last]
  have nearest: "as = map (\<lambda>v. int (closestCentroid v prev_cs (nat k))) vectors" .
  have res: "kMeansClustering rnd vectors k 100 = Inr \<lparr>centroids = cs, assignments = as\<rparr>"
    using run loop assms(1) by (simp add: kMeansClustering_def)
  have range': "\<forall>a \<in> set as. 0 \<le> a \<and> a < k" using range assms(2) by simp
  have one: "1 \<le> iterations" using rounds(1) by simp
  have run': "kMeans_run rnd vectors k 100 = Inr (cs, as, iterations, changed)"
    using run loop by simp
  show ?thesis
    using c0 run' res one rounds(2,3) len range' prev last nearest moved hist by blast
qed

theorem kMeansClustering_terminates_witness:
  "(\<exists>cs0 cs as iterations changed prev_cs prev_as.
      collect (map (\<lambda>j. initial_centroid [[10, 1, 0, 0, 0, 0, 0], [13, 5, 0, 0, 0, 0, 0]] (draws j))
                 [0..<nat 2]) = Inr cs0 \<and>
      kMeans_run draws [[10, 1, 0, 0, 0, 0, 0], [13, 5, 0, 0, 0, 0, 0]] 2 100 =
        Inr (cs, as, iterations, changed) \<and>
      kMeansClustering draws [[10, 1, 0, 0, 0, 0, 0], [13, 5, 0, 0, 0, 0, 0]] 2 100 =
        Inr \<lparr>centroids = cs, assignments = as\<rparr> \<and>
      1 \<le> iterations \<and> iterations \<le> 100 \<and> length as = 2 \<and>
      list_all (\<lambda>a. 0 \<le> a \<and> a < 2) as \<and>
      kMeans_rounds [[10, 1, 0, 0, 0, 0, 0], [13, 5, 0, 0, 0, 0, 0]] (nat 2) (iterations - 1)
        (cs0, replicate 2 (- 1)) = Inr (prev_cs, prev_as) \<and>
      kMeans_round [[10, 1, 0, 0, 0, 0, 0], [13, 5, 0, 0, 0, 0, 0]] (nat 2) (prev_cs, prev_as) =
        Inr (cs, as) \<and>
      as = map (\<lambda>v. int (closestCentroid v prev_cs (nat 2)))
             [[10, 1, 0, 0, 0, 0, 0], [13, 5, 0, 0, 0, 0, 0]] \<and>
      (changed \<longleftrightarrow> as \<noteq> prev_as)) \<and>
   kMeans_run draws [[10, 1, 0, 0, 0, 0, 0], [13, 5, 0, 0, 0, 0, 0]] 2 100 =
     Inr ([map Num [10, 1, 0, 0, 0, 0, 0], map Num [13, 5, 0, 0, 0, 0, 0]], [0, 1], 2, False)"
proof -
  let ?V = "[[10, 1, 0, 0, 0, 0, 0], [13, 5, 0, 0, 0, 0, 0 :: real]]"
  have ne: "?V \<noteq> []" by simp
  have k: "(1::int) \<le> 2" by simp
  have unit: "\<forall>j. 0 \<le> draws j \<and> draws j < 1" by (simp add: draws_def)
  from kMeansClustering_terminates [OF ne k unit]
  obtain cs0 cs as iterations changed prev_cs prev_as where
    c0: "collect (map (\<lambda>j. initial_centroid ?V (draws j)) [0..<nat 2]) = Inr cs0"
    and run: "kMeans_run draws ?V 2 100 = Inr (cs, as, iterations, changed)"
    and res: "kMeansClustering draws ?V 2 100 = Inr \<lparr>centroids = cs, assignments = as\<rparr>"
    and rounds: "1 \<le> iterations" "iterations \<le> 100"
    and len: "length as = length ?V"
    and range: "\<forall>a \<in> set as. 0 \<le> a \<and> a < 2"
    and prev: "kMeans_rounds ?V (nat 2) (iterations - 1) (cs0, replicate (length ?V) (- 1)) =
                 Inr (prev_cs, prev_as)"
    and last: "kMeans_round ?V (nat 2) (prev_cs, prev_as) = Inr (cs, as)"
    and nearest: "as = map (\<lambda>v. int (closestCentroid v prev_cs (nat 2))) ?V"
    and moved: "changed \<longleftrightarrow> as \<noteq> prev_as"
    by blast
  have len2: "length as = 2" using len by simp
  have all: "list_all (\<lambda>a. 0 \<le> a \<and> a < 2) as" using range by (simp add: list_all_iff)
  have prev2: "kMeans_rounds ?V (nat 2) (iterations - 1) (cs0, replicate 2 (- 1)) =
                 Inr (prev_cs, prev_as)"
    using prev by (simp add: numeral_2_eq_2)
  have "\<exists>cs0 cs as iterations changed prev_cs prev_as.
      collect (map (\<lambda>j. initial_centroid ?V (draws j)) [0..<nat 2]) = Inr cs0 \<and>
      kMeans_run draws ?V 2 100 = Inr (cs, as, iterations, changed) \<and>
      kMeansClustering draws ?V 2 100 = Inr \<lparr>centroids = cs, assignments = as\<rparr> \<and>
      1 \<le> iterations \<and> iterations \<le> 100 \<and> length as = 2 \<and>
      list_all (\<lambda>a. 0 \<le> a \<and> a < 2) as \<and>
      kMeans_rounds ?V (nat 2) (iterations - 1) (cs0, replicate 2 (- 1)) = Inr (prev_cs, prev_as) \<and>
      kMeans_round ?V (nat 2) (prev_cs, prev_as) = Inr (cs, as) \<and>
      as = map (\<lambda>v. int (closestCentroid v prev_cs (nat 2))) ?V \<and>
      (changed \<longleftrightarrow> as \<noteq> prev_as)"
    using c0 run res rounds len2 all prev2 last nearest moved by blast
  then show ?thesis using two_speakers_kMeans by (rule conjI)
qed

section \<open>Lemmas on the labels of a run\<close>

lemma dominant_cluster_member:
  "dominant_cluster fs = - 1 \<or> (0 \<le> dominant_cluster fs \<and> dominant_cluster fs \<in> cluster ` set fs)"
proof (cases "\<exists>f \<in> set fs. 0 \<le> cluster f")
  case False
  then have "\<forall>f \<in> set fs. cluster f < 0" by auto
  then show ?thesis using dominant_cluster_silent by blast
next
  case True
  from dominant_cluster_spec [OF True]
  have d: "0 \<le> dominant_cluster fs"
    and pos: "0 < length (filter (\<lambda>f. cluster f = dominant_cluster fs) fs)"
    by blast+
  from pos have "filter (\<lambda>f. cluster f = dominant_cluster fs) fs \<noteq> []" by blast
  then obtain f where "f \<in> set fs" "cluster f = dominant_cluster fs"
    by (metis (mono_tags, lifting) filter_False)
  then show ?thesis using d by (metis imageI)
qed

lemma assign_map:
  "assignSpeakersToSegments clusters fvs cs =
     map (\<lambda>ch. \<lparr>seg_text = chunk_text ch, seg_start = fst (timestamp ch),
                 seg_end = snd (timestamp ch),
                 speaker = speaker_label (dominant_cluster
                   (filter (\<lambda>f. time f \<ge> fst (timestamp ch) \<and> time f \<le> snd (timestamp ch))
                      clusters))\<rparr>) cs"
  by (simp add: assignSpeakersToSegments_def case_prod_unfold)

lemma assign_labels:
  assumes "s \<in> set (assignSpeakersToSegments clusters fvs cs)"
  shows "speaker s = ''Unknown'' \<or>
         (\<exists>c \<in> cluster ` set clusters. 0 \<le> c \<and> speaker s = speaker_label c)"
proof -
  have "\<exists>ch \<in> set cs. s =
          \<lparr>seg_text = chunk_text ch, seg_start = fst (timestamp ch),
           seg_end = snd (timestamp ch),
           speaker = speaker_label (dominant_cluster
             (filter (\<lambda>f. time f \<ge> fst (timestamp ch) \<and> time f \<le> snd (timestamp ch))
                clusters))\<rparr>"
    using assms unfolding assign_map set_map image_iff .
  then obtain ch where "ch \<in> set cs" and s: "s =
          \<lparr>seg_text = chunk_text ch, seg_start = fst (timestamp ch),
           seg_end = snd (timestamp ch),
           speaker = speaker_label (dominant_cluster
             (filter (\<lambda>f. time f \<ge> fst (timestamp ch) \<and> time f \<le> snd (timestamp ch))
                clusters))\<rparr>"
    by (rule bexE)
  let ?rel = "filter (\<lambda>f. time f \<ge> fst (timestamp ch) \<and> time f \<le> snd (timestamp ch)) clusters"
  have sp: "speaker s = speaker_label (dominant_cluster ?rel)"
    unfolding s by simp
  from dominant_cluster_member [of ?rel] show ?thesis
  proof
    assume "dominant_cluster ?rel = - 1"
    then show ?thesis using sp by (simp add: speaker_label_def)
  next
    assume "0 \<le> dominant_cluster ?rel \<and> dominant_cluster ?rel \<in> cluster ` set ?rel"
    then have "0 \<le> dominant_cluster ?rel" "dominant_cluster ?rel \<in> cluster ` set clusters"
      by auto
    then show ?thesis using sp by blast
  qed
qed

section \<open>Claims on the number of speakers\<close>

text \<open>
  Claim C2. For every engine, every count passed to \<open>setMaxSpeakers\<close>, every random
  source, feature history and transcription: when the run succeeds, the number of
  distinct speakers other than \<open>Unknown\<close> among the segments of the result is at most the
  maximum that \<open>setMaxSpeakers\<close> stored, the count clamped to the range from 1 to 10. The
  list of speakers of the result holds exactly these labels, each once.
\<close>

theorem speakers_within_maximum:
  assumes "processDiarization rnd (setMaxSpeakers e count) audioFeatures' transcription' =
             (Inr r, e', trace)"
  shows "int (card (speaker ` set (segments r) - {''Unknown''})) \<le>
           maxSpeakers (setMaxSpeakers e count) \<and>
         set (speakers r) = speaker ` set (segments r) - {''Unknown''} \<and>
         int (length (speakers r)) \<le> maxSpeakers (setMaxSpeakers e count) \<and>
         maxSpeakers (setMaxSpeakers e count) = max 1 (min 10 count)"
proof -
  let ?e = "setMaxSpeakers e count"
  let ?k = "maxSpeakers ?e"
  have k: "1 \<le> ?k" and kdef: "?k = max 1 (min 10 count)" by (simp_all add: setMaxSpeakers_def)
  from processDiarization_success(2,4) [OF assms]
  obtain clusters where
    cl: "clusterFeatureVectors rnd (extractFeatureVectors audioFeatures') ?k = Inr clusters"
    and seg: "segments r = optimizeSegments ?e
       (assignSpeakersToSegments clusters (extractFeatureVectors audioFeatures')
          (chunks transcription'))"
    and spk: "speakers r = extractUniqueSpeakers (segments r)"
    by blast
  have range: "\<forall>f \<in> set clusters. - 1 \<le> cluster f \<and> cluster f < ?k"
    by (rule clusterFeatureVectors_range [OF cl k])
  have sub: "speaker ` set (segments r) - {''Unknown''} \<subseteq> speaker_label ` {0..<?k}"
  proof
    fix l assume l: "l \<in> speaker ` set (segments r) - {''Unknown''}"
    then have "l \<in> speaker ` set (assignSpeakersToSegments clusters
                 (extractFeatureVectors audioFeatures') (chunks transcription'))"
      unfolding seg optimizeSegments_speakers by simp
    then obtain s where "s \<in> set (assignSpeakersToSegments clusters
                 (extractFeatureVectors audioFeatures') (chunks transcription'))"
      and "l = speaker s" by blast
    then obtain c where "c \<in> cluster ` set clusters" "0 \<le> c" "l = speaker_label c"
      using assign_labels l by blast
    then show "l \<in> speaker_label ` {0..<?k}" using range by auto
  qed
  have "card (speaker ` set (segments r) - {''Unknown''}) \<le> card (speaker_label ` {0..<?k})"
    using sub by (intro card_mono) simp_all
  also have "\<dots> \<le> card {0..<?k}" by (intro card_image_le) simp
  also have "\<dots> = nat ?k" by simp
  finally have bound: "int (card (speaker ` set (segments r) - {''Unknown''})) \<le> ?k"
    using k by simp
  have set: "set (speakers r) = speaker ` set (segments r) - {''Unknown''}"
    by (simp add: spk extractUniqueSpeakers_set)
  have "length (speakers r) = card (set (speakers r))"
    using extractUniqueSpeakers_distinct [of "segments r"] by (simp add: spk distinct_card)
  then have "int (length (speakers r)) \<le> ?k" using bound set by simp
  then show ?thesis using bound set kdef by blast
qed

theorem speakers_within_maximum_witness:
  "processDiarization draws (setMaxSpeakers listening 2) two_speakers hello_world =
     (Inr two_speakers_result, listening\<lparr>maxSpeakers := 2, isProcessing := False\<rparr>,
      run_trace listening two_speakers_result) \<and>
   speaker ` set (segments two_speakers_result) - {''Unknown''} = {''A'', ''B''} \<and>
   int (card (speaker ` set (segments two_speakers_result) - {''Unknown''})) \<le> 2 \<and>
   maxSpeakers (setMaxSpeakers listening 2) = 2"
proof -
  have mx: "maxSpeakers (setMaxSpeakers listening 2) = 2" by (simp add: setMaxSpeakers_def)
  have eng: "setMaxSpeakers listening 2 = listening\<lparr>maxSpeakers := 2\<rparr>"
    by (simp add: setMaxSpeakers_def)
  have np: "\<not> isProcessing (listening\<lparr>maxSpeakers := 2\<rparr>)"
    using listening_idle by simp
  have cl2: "clusterFeatureVectors draws (extractFeatureVectors two_speakers)
               (maxSpeakers (listening\<lparr>maxSpeakers := 2\<rparr>)) =
             Inr [\<lparr>time = 1 / 2, vector = [10, 1, 0, 0, 0, 0, 0], cluster = 0\<rparr>,
                  \<lparr>time = 3 / 2, vector = [13, 5, 0, 0, 0, 0, 0], cluster = 1\<rparr>]"
    using distance_a_a distance_a_b distance_b_a distance_b_b two_speakers_kMeans
    by (simp add: two_speakers_vectors clusterFeatureVectors_def js_nth_def kMeansClustering_def)
  obtain r where run: "processDiarization draws (listening\<lparr>maxSpeakers := 2\<rparr>) two_speakers
         hello_world =
       (Inr r, listening\<lparr>maxSpeakers := 2, isProcessing := False\<rparr>,
        run_trace (listening\<lparr>maxSpeakers := 2\<rparr>) r)"
    and seg: "segments r = optimizeSegments (listening\<lparr>maxSpeakers := 2\<rparr>)
       (assignSpeakersToSegments
          [\<lparr>time = 1 / 2, vector = [10, 1, 0, 0, 0, 0, 0], cluster = 0\<rparr>,
           \<lparr>time = 3 / 2, vector = [13, 5, 0, 0, 0, 0, 0], cluster = 1\<rparr>]
          (extractFeatureVectors two_speakers) (chunks hello_world))"
    and rt: "res_text r = tr_text hello_world"
    and spk: "speakers r = extractUniqueSpeakers (segments r)"
    using processDiarization_run [OF np cl2, of hello_world] by auto
  have seg': "segments r = segments two_speakers_result"
    unfolding seg two_speakers_labels
    by (simp add: optimizeSegments_Cons merge_step_def two_speakers_result_def)
  have spk': "speakers r = speakers two_speakers_result"
    unfolding spk seg'
    by (simp add: extractUniqueSpeakers_def set_add_def two_speakers_result_def)
  have "res_text r = res_text two_speakers_result"
    by (simp add: rt hello_world_def two_speakers_result_def)
  then have r: "r = two_speakers_result" using seg' spk' by simp
  have tr: "run_trace (listening\<lparr>maxSpeakers := 2\<rparr>) two_speakers_result =
              run_trace listening two_speakers_result"
    by (simp add: run_trace_def)
  have run': "processDiarization draws (setMaxSpeakers listening 2) two_speakers hello_world =
     (Inr two_speakers_result, listening\<lparr>maxSpeakers := 2, isProcessing := False\<rparr>,
      run_trace listening two_speakers_result)"
    using run by (simp add: eng r tr)
  have labels: "speaker ` set (segments two_speakers_result) - {''Unknown''} = {''A'', ''B''}"
    by (auto simp: two_speakers_result_def)
  have "int (card (speaker ` set (segments two_speakers_result) - {''Unknown''})) \<le> 2"
    using speakers_within_maximum [OF run'] mx by simp
  then show ?thesis using run' labels mx by blast
qed

end
